theory Spec2Isabelle
  imports Main "HOL-Library.Multiset" "HOL-Library.Sublist"
begin

section \<open>Values of the Python program\<close>

text \<open>
  The exceptions that the log fetcher of \<^verbatim>\<open>tools/loki_tools.py\<close> and the library
  calls it makes can raise. An exception is the \<open>Inl\<close> side of a result; since the
  fetcher is mutated in place, a function that raises still returns the state it left.
\<close>

datatype error =
    KeyError | TypeError | ValueError | AssertionError
  | RequestException | JSONDecodeError
  | OverflowError | OSError | UnicodeEncodeError | LookupError | VaultError

text \<open>
  A decoded JSON document, as \<^verbatim>\<open>resp.json()\<close> returns it: \<^verbatim>\<open>None\<close>, an \<^verbatim>\<open>int\<close>, a
  \<^verbatim>\<open>str\<close>, a \<^verbatim>\<open>list\<close> or a \<^verbatim>\<open>dict\<close> (its items, in insertion order, keys distinct).
  Booleans and non-integer numbers are left out of the model: the service sends
  timestamps and messages as strings.
\<close>

datatype json = JNull | JInt int | JStr string | JArr "json list" | JObj "(string \<times> json) list"

text \<open>\<^verbatim>\<open>x[key]\<close> with a string key: only a dict accepts it.\<close>

fun py_getitem :: "json \<Rightarrow> string \<Rightarrow> error + json" where
  "py_getitem (JObj kvs) k = (case map_of kvs k of None \<Rightarrow> Inl KeyError | Some v \<Rightarrow> Inr v)"
| "py_getitem _ k = Inl TypeError"

text \<open>
  \<^verbatim>\<open>for x in v\<close>: a list yields its elements, a dict its keys, a string its characters
  (strings of length one); \<^verbatim>\<open>None\<close> and numbers are not iterable.
\<close>

fun py_iter :: "json \<Rightarrow> error + json list" where
  "py_iter (JArr xs) = Inr xs"
| "py_iter (JObj kvs) = Inr (map (\<lambda>kv. JStr (fst kv)) kvs)"
| "py_iter (JStr s) = Inr (map (\<lambda>c. JStr [c]) s)"
| "py_iter _ = Inl TypeError"

text \<open>\<^verbatim>\<open>time_ns, message = v\<close>: \<open>v\<close> must be iterable and yield exactly two values.\<close>

definition unpack_pair :: "json \<Rightarrow> error + json \<times> json" where
  "unpack_pair v =
     (case py_iter v of
        Inl e \<Rightarrow> Inl e
      | Inr xs \<Rightarrow> (case xs of [a, b] \<Rightarrow> Inr (a, b) | _ \<Rightarrow> Inl ValueError))"

text \<open>
  \<^verbatim>\<open>int(x)\<close>. The reading of a string is the interpreter's (\<open>int_str\<close>, \<open>None\<close> where it
  raises \<^verbatim>\<open>ValueError\<close>) and is a parameter of the model.
\<close>

fun py_int :: "(string \<Rightarrow> int option) \<Rightarrow> json \<Rightarrow> error + int" where
  "py_int int_str (JInt n) = Inr n"
| "py_int int_str (JStr s) = (case int_str s of None \<Rightarrow> Inl ValueError | Some n \<Rightarrow> Inr n)"
| "py_int int_str _ = Inl TypeError"

text \<open>Whether a value can be a member of a \<^verbatim>\<open>set\<close>: lists and dicts are unhashable.\<close>

fun hashable :: "json \<Rightarrow> bool" where
  "hashable (JArr _) = False"
| "hashable (JObj _) = False"
| "hashable _ = True"

section \<open>The fetcher object\<close>

datatype direction = forward | backward

datatype pytype = list_t | dict_t | other_t

text \<open>
  \<^verbatim>\<open>self._logs\<close>: a list of \<open>(time_ns, message)\<close> in append order, or a
  \<^verbatim>\<open>defaultdict(set)\<close> from \<open>time_ns\<close> to a set of messages. The dict is its items in
  insertion order; a set is the duplicate-free list of its members in the order they
  were first added (the order in which Python iterates it is a parameter of \<open>logs\<close>).
\<close>

datatype logs_store = LogList "(int \<times> json) list" | LogDict "(int \<times> json list) list"

record fetcher =
  url :: string
  date_format :: string
  query_limit :: int
  next_chunk_step_ns :: int
  data_parse_structure :: pytype
  priv_logs :: logs_store
  priv_result :: "(string \<times> json) list option"

text \<open>\<^verbatim>\<open>d[t]\<close> on the defaultdict: a missing key is created with an empty set.\<close>

definition dict_touch :: "int \<Rightarrow> (int \<times> json list) list \<Rightarrow> (int \<times> json list) list" where
  "dict_touch t d = (if t \<in> fst ` set d then d else d @ [(t, [])])"

definition set_add :: "json \<Rightarrow> json list \<Rightarrow> json list" where
  "set_add m ms = (if m \<in> set ms then ms else ms @ [m])"

definition dict_add :: "int \<Rightarrow> json \<Rightarrow> (int \<times> json list) list \<Rightarrow> (int \<times> json list) list" where
  "dict_add t m d = map (\<lambda>(k, ms). if k = t then (k, set_add m ms) else (k, ms)) d"

text \<open>
  The body of the inner loop after the timestamp is converted:
  \<^verbatim>\<open>self._logs.append((time_ns, message))\<close> or \<^verbatim>\<open>self._logs[time_ns].add(message)\<close>.
  The latter creates the key before \<^verbatim>\<open>add\<close> rejects an unhashable message.
\<close>

fun store_insert :: "logs_store \<Rightarrow> int \<Rightarrow> json \<Rightarrow> (error + unit) \<times> logs_store" where
  "store_insert (LogList xs) t m = (Inr (), LogList (xs @ [(t, m)]))"
| "store_insert (LogDict d) t m =
     (if hashable m then (Inr (), LogDict (dict_add t m (dict_touch t d)))
      else (Inl TypeError, LogDict (dict_touch t d)))"

section \<open>\<^verbatim>\<open>_unpack_response\<close>\<close>

text \<open>The loop \<^verbatim>\<open>for v in i['values']\<close>, carrying \<open>length\<close>, \<open>time_peak\<close> and the store.\<close>

fun unpack_values ::
  "(string \<Rightarrow> int option) \<Rightarrow> json list \<Rightarrow> nat \<times> int \<times> logs_store \<Rightarrow>
     (error + nat \<times> int) \<times> logs_store" where
  "unpack_values int_str [] (len, time_peak, s) = (Inr (len, time_peak), s)"
| "unpack_values int_str (v # vs) (len, time_peak, s) =
     (case unpack_pair v of
        Inl e \<Rightarrow> (Inl e, s)
      | Inr (time_ns, message) \<Rightarrow>
          (case py_int int_str time_ns of
             Inl e \<Rightarrow> (Inl e, s)
           | Inr t \<Rightarrow>
               (case store_insert s t message of
                  (Inl e, s') \<Rightarrow> (Inl e, s')
                | (Inr _, s') \<Rightarrow> unpack_values int_str vs (len + 1, max time_peak t, s'))))"

text \<open>The loop \<^verbatim>\<open>for i in response_data['data']['result']\<close>.\<close>

fun unpack_groups ::
  "(string \<Rightarrow> int option) \<Rightarrow> json list \<Rightarrow> nat \<times> int \<times> logs_store \<Rightarrow>
     (error + nat \<times> int) \<times> logs_store" where
  "unpack_groups int_str [] (len, time_peak, s) = (Inr (len, time_peak), s)"
| "unpack_groups int_str (i # is) (len, time_peak, s) =
     (case py_getitem i ''values'' of
        Inl e \<Rightarrow> (Inl e, s)
      | Inr vals \<Rightarrow>
          (case py_iter vals of
             Inl e \<Rightarrow> (Inl e, s)
           | Inr vs \<Rightarrow>
               (case unpack_values int_str vs (len, time_peak, s) of
                  (Inl e, s') \<Rightarrow> (Inl e, s')
                | (Inr (len', peak'), s') \<Rightarrow> unpack_groups int_str is (len', peak', s'))))"

definition unpack_response ::
  "(string \<Rightarrow> int option) \<Rightarrow> fetcher \<Rightarrow> json \<Rightarrow> (error + nat \<times> int) \<times> fetcher" where
  "unpack_response int_str self response_data =
     (case py_getitem response_data ''data'' of
        Inl e \<Rightarrow> (Inl e, self)
      | Inr d \<Rightarrow>
          (case py_getitem d ''result'' of
             Inl e \<Rightarrow> (Inl e, self)
           | Inr r \<Rightarrow>
               (case py_iter r of
                  Inl e \<Rightarrow> (Inl e, self)
                | Inr groups \<Rightarrow>
                    (case unpack_groups int_str groups (0, 0, priv_logs self) of
                       (res, s') \<Rightarrow> (res, self\<lparr>priv_logs := s'\<rparr>)))))"

section \<open>\<^verbatim>\<open>fetch_logs\<close>\<close>

text \<open>
  One HTTP request: the URL and the query parameters of \<^verbatim>\<open>requests.get\<close>. The world
  is the list of requests sent so far and the state of the service; \<open>serve\<close>, the
  service together with \<^verbatim>\<open>resp.json()\<close>, is a parameter: it answers a request with a
  decoded document or an exception of the transport or of the decoder.
\<close>

record request =
  req_url :: string
  limit :: int
  direction :: direction
  start :: int
  query :: string

record 's world =
  sent :: "request list"
  service :: 's

definition requests_get ::
  "('s \<Rightarrow> request \<Rightarrow> (error + json) \<times> 's) \<Rightarrow> 's world \<Rightarrow> request \<Rightarrow> (error + json) \<times> 's world" where
  "requests_get serve w rq =
     (case serve (service w) rq of
        (resp, s') \<Rightarrow> (resp, \<lparr>sent = sent w @ [rq], service = s'\<rparr>))"

text \<open>
  The two library calls that \<open>serve\<close> stands for. \<^verbatim>\<open>requests.get\<close> raises, or
  returns the response of the service whatever its status code; \<^verbatim>\<open>resp.json()\<close>
  decodes the body, or raises. \<^verbatim>\<open>fetch_logs\<close> calls the second on the result of the
  first and reads nothing else of the response: not its status code, and it does not
  call \<^verbatim>\<open>raise_for_status\<close>.
\<close>

record http_response =
  status_code :: int
  body_json :: "error + json"

definition get_json ::
  "('s \<Rightarrow> request \<Rightarrow> (error + http_response) \<times> 's) \<Rightarrow> 's \<Rightarrow> request \<Rightarrow> (error + json) \<times> 's" where
  "get_json http s rq =
     (case http s rq of
        (Inl e, s') \<Rightarrow> (Inl e, s')
      | (Inr resp, s') \<Rightarrow> (body_json resp, s'))"

text \<open>
  \<^verbatim>\<open>fetch_logs\<close> calls itself for the next page, and a service that always answers a
  full page keeps it going: the recursion is bounded by fuel, and \<open>None\<close> is a call
  that has not returned within it. The recursive call passes \<^verbatim>\<open>query\<close> and \<^verbatim>\<open>start\<close>
  only, so \<^verbatim>\<open>fetch_all\<close> and \<^verbatim>\<open>direction\<close> take their defaults there.
\<close>

fun fetch_logs ::
  "('s \<Rightarrow> request \<Rightarrow> (error + json) \<times> 's) \<Rightarrow> (string \<Rightarrow> int option) \<Rightarrow> nat \<Rightarrow>
     fetcher \<Rightarrow> 's world \<Rightarrow> string \<Rightarrow> int \<Rightarrow> bool \<Rightarrow> direction \<Rightarrow>
     ((error + unit) \<times> fetcher \<times> 's world) option" where
  "fetch_logs serve int_str 0 self w q st fetch_all dir = None"
| "fetch_logs serve int_str (Suc fuel) self w q st fetch_all dir =
     (let self1 = self\<lparr>priv_result := None\<rparr>;
          params = \<lparr>req_url = url self1, limit = query_limit self1, direction = dir,
                    start = st, query = q\<rparr>
      in case requests_get serve w params of
           (Inl e, w1) \<Rightarrow> Some (Inl e, self1, w1)
         | (Inr result, w1) \<Rightarrow>
             (case unpack_response int_str self1 result of
                (Inl e, self2) \<Rightarrow> Some (Inl e, self2, w1)
              | (Inr (len, last_item_time_ns), self2) \<Rightarrow>
                  if fetch_all \<and> int len = query_limit self2
                  then fetch_logs serve int_str fuel self2 w1 q
                         (last_item_time_ns + next_chunk_step_ns self2) True forward
                  else Some (Inr (), self2, w1)))"

section \<open>The \<^verbatim>\<open>logs\<close> property\<close>

text \<open>
  \<^verbatim>\<open>datetime.fromtimestamp(t / 1e9).strftime(self.date_format)\<close> is a parameter
  \<open>strftime\<close> of the model, from the format and the integer timestamp to the text or
  to the exception of the library (a timestamp out of the platform's range).
\<close>

definition format_entry ::
  "(string \<Rightarrow> int \<Rightarrow> error + string) \<Rightarrow> string \<Rightarrow> int \<times> json \<Rightarrow> error + string \<times> json" where
  "format_entry strftime fmt x =
     (case strftime fmt (fst x) of Inl e \<Rightarrow> Inl e | Inr t \<Rightarrow> Inr (t, snd x))"

text \<open>\<^verbatim>\<open>list(map(f, xs))\<close> where \<open>f\<close> may raise: the first exception ends it.\<close>

fun list_map :: "('a \<Rightarrow> error + 'b) \<Rightarrow> 'a list \<Rightarrow> error + 'b list" where
  "list_map f [] = Inr []"
| "list_map f (x # xs) =
     (case f x of
        Inl e \<Rightarrow> Inl e
      | Inr y \<Rightarrow> (case list_map f xs of Inl e \<Rightarrow> Inl e | Inr ys \<Rightarrow> Inr (y # ys)))"

text \<open>
  The loop over the sorted items of the dict, appending to \<^verbatim>\<open>self._result\<close>; the
  messages of one timestamp come in the order \<open>set_iter\<close> in which Python iterates the
  set. An exception of the formatter leaves what was appended so far.
\<close>

fun flatten_items ::
  "(string \<Rightarrow> int \<Rightarrow> error + string) \<Rightarrow> (json list \<Rightarrow> json list) \<Rightarrow> string \<Rightarrow>
     (int \<times> json list) list \<Rightarrow> (string \<times> json) list \<Rightarrow> (error + unit) \<times> (string \<times> json) list" where
  "flatten_items strftime set_iter fmt [] res = (Inr (), res)"
| "flatten_items strftime set_iter fmt ((t, v) # items) res =
     (case strftime fmt t of
        Inl e \<Rightarrow> (Inl e, res)
      | Inr t' \<Rightarrow> flatten_items strftime set_iter fmt items (res @ map (\<lambda>i. (t', i)) (set_iter v)))"

definition logs ::
  "(string \<Rightarrow> int \<Rightarrow> error + string) \<Rightarrow> (json list \<Rightarrow> json list) \<Rightarrow> fetcher \<Rightarrow>
     (error + (string \<times> json) list) \<times> fetcher" where
  "logs strftime set_iter self =
     (case priv_result self of
        Some (r # rs) \<Rightarrow> (Inr (r # rs), self)
      | _ \<Rightarrow>
        (case priv_logs self of
           LogList xs \<Rightarrow>
             (case list_map (format_entry strftime (date_format self)) (sort_key fst xs) of
                Inl e \<Rightarrow> (Inl e, self)
              | Inr r \<Rightarrow> (Inr r, self\<lparr>priv_result := Some r\<rparr>))
         | LogDict d \<Rightarrow>
             (case flatten_items strftime set_iter (date_format self) (sort_key fst d) [] of
                (Inl e, r) \<Rightarrow> (Inl e, self\<lparr>priv_result := Some r\<rparr>)
              | (Inr _, r) \<Rightarrow> (Inr r, self\<lparr>priv_result := Some r\<rparr>))))"

section \<open>\<^verbatim>\<open>to_file\<close>\<close>

text \<open>
  An open \<^verbatim>\<open>BytesIO\<close>: its buffer and its cursor. A byte is a \<^typ>\<open>char\<close>. Writing
  overwrites from the cursor on and extends the buffer, after padding it with zero
  bytes when the cursor is beyond its end; writing nothing changes nothing.
\<close>

type_synonym bytes = "char list"

record bytesio =
  buf :: bytes
  pos :: nat

definition new_bytesio :: bytesio where
  "new_bytesio = \<lparr>buf = [], pos = 0\<rparr>"

definition file_write :: "bytesio \<Rightarrow> bytes \<Rightarrow> bytesio" where
  "file_write f b =
     (if b = [] then f
      else let padded = buf f @ replicate (pos f - length (buf f)) (CHR 0x00)
           in \<lparr>buf = take (pos f) padded @ b @ drop (pos f + length b) padded,
               pos = pos f + length b\<rparr>)"

definition file_seek :: "bytesio \<Rightarrow> nat \<Rightarrow> bytesio" where
  "file_seek f n = f\<lparr>pos := n\<rparr>"

definition file_read :: "bytesio \<Rightarrow> bytes \<times> bytesio" where
  "file_read f = (drop (pos f) (buf f), f\<lparr>pos := max (pos f) (length (buf f))\<rparr>)"

text \<open>
  \<^verbatim>\<open>f'{log[1]}'\<close>: a string is put in as it is, any other value as the interpreter
  prints it (\<open>repr\<close>, a parameter).
\<close>

fun py_str :: "(json \<Rightarrow> string) \<Rightarrow> json \<Rightarrow> string" where
  "py_str repr (JStr s) = s"
| "py_str repr j = repr j"

definition line :: "(json \<Rightarrow> string) \<Rightarrow> string \<times> json \<Rightarrow> string" where
  "line repr log = fst log @ [CHR 0x09] @ py_str repr (snd log) @ [CHR 0x0A]"

text \<open>
  The loop \<^verbatim>\<open>for log in self.logs: file.write(f'...'.encode(enc))\<close>; \<open>encode\<close> is
  \<^verbatim>\<open>str.encode\<close>, from the name of the encoding and the text to the bytes or to its
  exception.
\<close>

fun write_logs ::
  "(string \<Rightarrow> string \<Rightarrow> error + bytes) \<Rightarrow> (json \<Rightarrow> string) \<Rightarrow> string \<Rightarrow> bytesio \<Rightarrow>
     (string \<times> json) list \<Rightarrow> (error + unit) \<times> bytesio" where
  "write_logs encode repr enc file [] = (Inr (), file)"
| "write_logs encode repr enc file (log # rest) =
     (case encode enc (line repr log) of
        Inl e \<Rightarrow> (Inl e, file)
      | Inr b \<Rightarrow> write_logs encode repr enc (file_write file b) rest)"

text \<open>
  \<^verbatim>\<open>to_file\<close> returns the sink; the model returns the sink in every case, with what
  was written to it before an exception, next to the result and the fetcher.
\<close>

definition to_file ::
  "(string \<Rightarrow> int \<Rightarrow> error + string) \<Rightarrow> (json list \<Rightarrow> json list) \<Rightarrow>
   (string \<Rightarrow> string \<Rightarrow> error + bytes) \<Rightarrow> (json \<Rightarrow> string) \<Rightarrow>
   fetcher \<Rightarrow> bytesio option \<Rightarrow> string \<Rightarrow> bool \<Rightarrow> (error + unit) \<times> bytesio \<times> fetcher" where
  "to_file strftime set_iter encode repr self file enc do_seek =
     (let file1 = (case file of None \<Rightarrow> new_bytesio | Some f \<Rightarrow> f)
      in case logs strftime set_iter self of
           (Inl e, self1) \<Rightarrow> (Inl e, file1, self1)
         | (Inr ls, self1) \<Rightarrow>
             (case write_logs encode repr enc file1 ls of
                (Inl e, file2) \<Rightarrow> (Inl e, file2, self1)
              | (Inr _, file2) \<Rightarrow>
                  (Inr (), (if do_seek then file_seek file2 0 else file2), self1)))"

section \<open>Construction\<close>

text \<open>
  \<^verbatim>\<open>VaultClient(project=project_or_id).get_all_secrets()\<close> is not part of these
  sources: \<open>get_all_secrets\<close> is a parameter, from the project (or \<^verbatim>\<open>None\<close>) to the
  dict of secrets or to the exception of the vault.
\<close>

definition default_api_path :: string where
  "default_api_path = ''/api/v1/query_range''"

definition make_url ::
  "('p option \<Rightarrow> error + (string \<rightharpoonup> string)) \<Rightarrow> 'p option \<Rightarrow> string \<Rightarrow> error + string" where
  "make_url get_all_secrets project_or_id api_path =
     (case get_all_secrets project_or_id of
        Inl e \<Rightarrow> Inl e
      | Inr secrets \<Rightarrow>
          (case secrets ''loki_host'' of
             None \<Rightarrow> Inl KeyError
           | Some loki_host \<Rightarrow> Inr (loki_host @ ''/loki'' @ api_path)))"

text \<open>
  \<^verbatim>\<open>__init__\<close>: the assertion on the data structure comes first; \<^verbatim>\<open>not url\<close> holds
  of \<^verbatim>\<open>None\<close> and of the empty string.
\<close>

definition init ::
  "('p option \<Rightarrow> error + (string \<rightharpoonup> string)) \<Rightarrow> string option \<Rightarrow> string \<Rightarrow> int \<Rightarrow> int \<Rightarrow>
     pytype \<Rightarrow> error + fetcher" where
  "init get_all_secrets url_arg date_format_arg query_limit_arg next_chunk_step_ns_arg
        data_parse_structure_arg =
     (if data_parse_structure_arg \<noteq> list_t \<and> data_parse_structure_arg \<noteq> dict_t
      then Inl AssertionError
      else
        (case (case url_arg of
                 None \<Rightarrow> make_url get_all_secrets None default_api_path
               | Some u \<Rightarrow> if u = [] then make_url get_all_secrets None default_api_path
                           else Inr u) of
           Inl e \<Rightarrow> Inl e
         | Inr u \<Rightarrow>
             Inr \<lparr>url = u, date_format = date_format_arg, query_limit = query_limit_arg,
                  next_chunk_step_ns = next_chunk_step_ns_arg,
                  data_parse_structure = data_parse_structure_arg,
                  priv_logs = (if data_parse_structure_arg = list_t then LogList []
                               else LogDict []),
                  priv_result = None\<rparr>))"

text \<open>
  The keyword arguments of \<^verbatim>\<open>from_project\<close>: those an \<^verbatim>\<open>__init__\<close> or \<^verbatim>\<open>make_url\<close>
  parameter names, when given, and the names of any others.
\<close>

record kwargs =
  kw_url :: "string option"
  kw_api_path :: "string option"
  kw_date_format :: "string option"
  kw_query_limit :: "int option"
  kw_next_chunk_step_ns :: "int option"
  kw_data_parse_structure :: "pytype option"
  kw_others :: "string list"

definition from_project ::
  "('p option \<Rightarrow> error + (string \<rightharpoonup> string)) \<Rightarrow> 'p \<Rightarrow> kwargs \<Rightarrow> error + fetcher" where
  "from_project get_all_secrets project kw =
     (let kw1 = kw\<lparr>kw_url := None\<rparr>
      in if ''project_or_id'' \<in> set (kw_others kw1) then Inl TypeError
         else
           (case make_url get_all_secrets (Some project)
                   (case kw_api_path kw1 of None \<Rightarrow> default_api_path | Some p \<Rightarrow> p) of
              Inl e \<Rightarrow> Inl e
            | Inr u \<Rightarrow>
                if kw_api_path kw1 \<noteq> None \<or> kw_others kw1 \<noteq> [] then Inl TypeError
                else init get_all_secrets (Some u)
                       (case kw_date_format kw1 of None \<Rightarrow> ''%Y-%m-%d %H:%M:%S'' | Some d \<Rightarrow> d)
                       (case kw_query_limit kw1 of None \<Rightarrow> 5000 | Some n \<Rightarrow> n)
                       (case kw_next_chunk_step_ns kw1 of None \<Rightarrow> 1 | Some n \<Rightarrow> n)
                       (case kw_data_parse_structure kw1 of None \<Rightarrow> list_t | Some t \<Rightarrow> t)))"

section \<open>Fixtures for running the model\<close>

text \<open>
  An instance of the interpreter's \<^verbatim>\<open>int\<close> on strings: the decimal numerals with an
  optional sign, which is what the service sends as timestamps.
\<close>

definition digit_of :: "char \<Rightarrow> nat option" where
  "digit_of c =
     (let n = (of_char c :: nat) in if 48 \<le> n \<and> n \<le> 57 then Some (n - 48) else None)"

fun dec_nat :: "nat \<Rightarrow> string \<Rightarrow> nat option" where
  "dec_nat acc [] = Some acc"
| "dec_nat acc (c # cs) =
     (case digit_of c of None \<Rightarrow> None | Some d \<Rightarrow> dec_nat (10 * acc + d) cs)"

definition dec_int :: "string \<Rightarrow> int option" where
  "dec_int s =
     (case s of
        [] \<Rightarrow> None
      | c # cs \<Rightarrow>
          if c = CHR ''-'' then (if cs = [] then None else map_option (\<lambda>n. - int n) (dec_nat 0 cs))
          else if c = CHR ''+'' then (if cs = [] then None else map_option int (dec_nat 0 cs))
          else map_option int (dec_nat 0 s))"

text \<open>A scripted service: it answers the requests with the given responses, in order.\<close>

fun serve_script :: "(error + json) list \<Rightarrow> request \<Rightarrow> (error + json) \<times> (error + json) list" where
  "serve_script [] rq = (Inl RequestException, [])"
| "serve_script (r # rs) rq = (r, rs)"

text \<open>The same at the level of HTTP: the scripted answers are responses with a status.\<close>

fun http_script ::
  "(error + http_response) list \<Rightarrow> request \<Rightarrow>
     (error + http_response) \<times> (error + http_response) list" where
  "http_script [] rq = (Inl RequestException, [])"
| "http_script (r # rs) rq = (r, rs)"

text \<open>A well-formed response with the given groups of \<open>(timestamp, message)\<close> strings.\<close>

definition response :: "(string \<times> string) list list \<Rightarrow> json" where
  "response groups =
     JObj [(''data'', JObj [(''result'',
       JArr (map (\<lambda>vs. JObj [(''values'', JArr (map (\<lambda>(t, m). JArr [JStr t, JStr m]) vs))]) groups))])]"

text \<open>
  A fetcher as \<^verbatim>\<open>__init__\<close> leaves it, with the given policy and page limit.
\<close>

definition new_fetcher :: "pytype \<Rightarrow> int \<Rightarrow> fetcher" where
  "new_fetcher t lim =
     \<lparr>url = ''http://loki/loki/api/v1/query_range'', date_format = ''%Y-%m-%d %H:%M:%S'',
      query_limit = lim, next_chunk_step_ns = 1, data_parse_structure = t,
      priv_logs = (if t = list_t then LogList [] else LogDict []), priv_result = None\<rparr>"

text \<open>
  A stand-in for the library's formatter, for running the model: it raises on a negative
  timestamp and otherwise writes the format followed by one stroke per nanosecond.
\<close>

definition tally :: "string \<Rightarrow> int \<Rightarrow> error + string" where
  "tally fmt t = (if t < 0 then Inl OSError else Inr (fmt @ replicate (nat t) (CHR ''|'')))"

section \<open>Notions used to state the properties\<close>

text \<open>
  What the body of the inner loop makes of one element of \<open>values\<close> before it
  stores it: the pair of the timestamp, converted, and the message, or the exception.
\<close>

definition decode_entry :: "(string \<Rightarrow> int option) \<Rightarrow> json \<Rightarrow> error + int \<times> json" where
  "decode_entry int_str v =
     (case unpack_pair v of
        Inl e \<Rightarrow> Inl e
      | Inr (time_ns, message) \<Rightarrow>
          (case py_int int_str time_ns of Inl e \<Rightarrow> Inl e | Inr t \<Rightarrow> Inr (t, message)))"

text \<open>
  The \<open>values\<close> entries of a result group and of all the result groups of a
  response, as the loops iterate them; there are none where the subscript or the
  iteration raises.
\<close>

definition group_values :: "json \<Rightarrow> json list" where
  "group_values i =
     (case py_getitem i ''values'' of
        Inl _ \<Rightarrow> []
      | Inr vals \<Rightarrow> (case py_iter vals of Inl _ \<Rightarrow> [] | Inr vs \<Rightarrow> vs))"

definition page_groups :: "json \<Rightarrow> json list" where
  "page_groups response_data =
     (case py_getitem response_data ''data'' of
        Inl _ \<Rightarrow> []
      | Inr d \<Rightarrow>
          (case py_getitem d ''result'' of
             Inl _ \<Rightarrow> []
           | Inr r \<Rightarrow> (case py_iter r of Inl _ \<Rightarrow> [] | Inr gs \<Rightarrow> gs)))"

definition page_values :: "json \<Rightarrow> json list" where
  "page_values response_data = concat (map group_values (page_groups response_data))"

text \<open>
  The store after the given entries are inserted in order, and whether a store takes a
  message: the list takes any, the dict of sets a hashable one.
\<close>

definition insert_all :: "logs_store \<Rightarrow> (int \<times> json) list \<Rightarrow> logs_store" where
  "insert_all s es = foldl (\<lambda>s' e. snd (store_insert s' (fst e) (snd e))) s es"

fun accepts :: "logs_store \<Rightarrow> json \<Rightarrow> bool" where
  "accepts (LogList xs) m = True"
| "accepts (LogDict d) m = hashable m"

text \<open>
  A response of the expected shape: \<^verbatim>\<open>response_data['data']['result']\<close> can be
  iterated, and each of its groups has \<open>values\<close> that can be iterated.
\<close>

definition well_formed :: "json \<Rightarrow> bool" where
  "well_formed response_data \<longleftrightarrow>
     (\<exists>d r. py_getitem response_data ''data'' = Inr d \<and> py_getitem d ''result'' = Inr r \<and>
        py_iter r = Inr (page_groups response_data)) \<and>
     (\<forall>i \<in> set (page_groups response_data).
        \<exists>vals. py_getitem i ''values'' = Inr vals \<and> py_iter vals = Inr (group_values i))"

text \<open>
  The \<open>(timestamp, message)\<close> pairs that a store holds. A dict of sets that the
  fetcher builds has each key once and each message of a key once.
\<close>

definition dict_pairs :: "(int \<times> json list) list \<Rightarrow> (int \<times> json) list" where
  "dict_pairs d = concat (map (\<lambda>(t, ms). map (Pair t) ms) d)"

fun store_pairs :: "logs_store \<Rightarrow> (int \<times> json) list" where
  "store_pairs (LogList xs) = xs"
| "store_pairs (LogDict d) = dict_pairs d"

fun store_ok :: "logs_store \<Rightarrow> bool" where
  "store_ok (LogList xs) = True"
| "store_ok (LogDict d) = (distinct (map fst d) \<and> (\<forall>ms \<in> snd ` set d. distinct ms))"

text \<open>The request that a call of \<^verbatim>\<open>fetch_logs\<close> sends.\<close>

definition request_of :: "fetcher \<Rightarrow> string \<Rightarrow> int \<Rightarrow> direction \<Rightarrow> request" where
  "request_of self q st dir =
     \<lparr>req_url = url self, limit = query_limit self, direction = dir, start = st, query = q\<rparr>"

text \<open>
  One store extends another: the list has the other as a prefix, the dict holds every
  pair of the other.
\<close>

fun store_le :: "logs_store \<Rightarrow> logs_store \<Rightarrow> bool" where
  "store_le (LogList xs) (LogList ys) = prefix xs ys"
| "store_le (LogDict d) (LogDict d') = (set (dict_pairs d) \<subseteq> set (dict_pairs d'))"
| "store_le _ _ = False"

text \<open>
  The entries of a page and their peak, as \<^verbatim>\<open>_unpack_response\<close> computes it (from 0).
\<close>

definition page_entries :: "(string \<Rightarrow> int option) \<Rightarrow> json \<Rightarrow> (int \<times> json) list" where
  "page_entries int_str p =
     (case list_map (decode_entry int_str) (page_values p) of Inl _ \<Rightarrow> [] | Inr es \<Rightarrow> es)"

definition page_peak :: "(string \<Rightarrow> int option) \<Rightarrow> json \<Rightarrow> int" where
  "page_peak int_str p = foldl max 0 (map fst (page_entries int_str p))"

text \<open>
  A page that \<^verbatim>\<open>_unpack_response\<close> processes without an exception in the state
  \<open>self\<close>: it has the expected shape, every entry is a pair whose first component
  converts to an integer, and the store takes every message.
\<close>

definition page_ok :: "(string \<Rightarrow> int option) \<Rightarrow> fetcher \<Rightarrow> json \<Rightarrow> bool" where
  "page_ok int_str self p \<longleftrightarrow>
     well_formed p \<and>
     (\<exists>es. list_map (decode_entry int_str) (page_values p) = Inr es \<and>
        (\<forall>e \<in> set es. accepts (priv_logs self) (snd e)))"

text \<open>The entries of a sequence of pages, in the order in which they are unpacked.\<close>

definition pages_entries :: "(string \<Rightarrow> int option) \<Rightarrow> json list \<Rightarrow> (int \<times> json) list" where
  "pages_entries int_str pages = concat (map (page_entries int_str) pages)"

text \<open>
  The entries of a store in the order in which \<^verbatim>\<open>logs\<close> lists them: the list sorted
  by timestamp (\<^verbatim>\<open>sorted\<close> is stable), or the items of the dict sorted by key, the
  messages of each key in the iteration order of the set.
\<close>

definition items_raw :: "(json list \<Rightarrow> json list) \<Rightarrow> (int \<times> json list) list \<Rightarrow> (int \<times> json) list" where
  "items_raw set_iter items = concat (map (\<lambda>(t, ms). map (Pair t) (set_iter ms)) items)"

fun raw_view :: "(json list \<Rightarrow> json list) \<Rightarrow> logs_store \<Rightarrow> (int \<times> json) list" where
  "raw_view set_iter (LogList xs) = sort_key fst xs"
| "raw_view set_iter (LogDict d) = items_raw set_iter (sort_key fst d)"

text \<open>
  A view formats a list of entries: it has one pair for each entry, in the same order,
  with the timestamp formatted and the message unchanged.
\<close>

definition formats ::
  "(string \<Rightarrow> int \<Rightarrow> error + string) \<Rightarrow> string \<Rightarrow> (int \<times> json) list \<Rightarrow>
     (string \<times> json) list \<Rightarrow> bool" where
  "formats strftime fmt raw view \<longleftrightarrow>
     list_all2 (\<lambda>x y. strftime fmt (fst x) = Inr (fst y) \<and> snd y = snd x) raw view"

text \<open>
  The cached view is always the formatted image of an initial part of the entries in
  view order: all of them, unless the formatter raised while the cache was being built.
\<close>

definition cache_ok ::
  "(string \<Rightarrow> int \<Rightarrow> error + string) \<Rightarrow> (json list \<Rightarrow> json list) \<Rightarrow> fetcher \<Rightarrow> bool" where
  "cache_ok strftime set_iter self \<longleftrightarrow>
     (case priv_result self of
        None \<Rightarrow> True
      | Some r \<Rightarrow>
          (\<exists>n. formats strftime (date_format self) (take n (raw_view set_iter (priv_logs self))) r))"

text \<open>
  The states that the methods of the class lead to: a fetcher is constructed, and then
  \<^verbatim>\<open>fetch_logs\<close> (returning or raising), \<^verbatim>\<open>logs\<close> and \<^verbatim>\<open>to_file\<close> are called on
  it in any order, against any state of the service.
\<close>

inductive reachable ::
  "('p option \<Rightarrow> error + (string \<rightharpoonup> string)) \<Rightarrow> ('s \<Rightarrow> request \<Rightarrow> (error + json) \<times> 's) \<Rightarrow>
   (string \<Rightarrow> int option) \<Rightarrow> (string \<Rightarrow> int \<Rightarrow> error + string) \<Rightarrow> (json list \<Rightarrow> json list) \<Rightarrow>
   (string \<Rightarrow> string \<Rightarrow> error + bytes) \<Rightarrow> (json \<Rightarrow> string) \<Rightarrow> fetcher \<Rightarrow> bool"
  for get_all_secrets serve int_str strftime set_iter encode repr where
  r_init:
    "init get_all_secrets url_arg fmt lim step dps = Inr self \<Longrightarrow>
     reachable get_all_secrets serve int_str strftime set_iter encode repr self"
| r_from_project:
    "from_project get_all_secrets project kw = Inr self \<Longrightarrow>
     reachable get_all_secrets serve int_str strftime set_iter encode repr self"
| r_fetch_logs:
    "reachable get_all_secrets serve int_str strftime set_iter encode repr self \<Longrightarrow>
     fetch_logs serve int_str n self w q st fetch_all dir = Some (res, self', w') \<Longrightarrow>
     reachable get_all_secrets serve int_str strftime set_iter encode repr self'"
| r_logs:
    "reachable get_all_secrets serve int_str strftime set_iter encode repr self \<Longrightarrow>
     logs strftime set_iter self = (res, self') \<Longrightarrow>
     reachable get_all_secrets serve int_str strftime set_iter encode repr self'"
| r_to_file:
    "reachable get_all_secrets serve int_str strftime set_iter encode repr self \<Longrightarrow>
     to_file strftime set_iter encode repr self file enc do_seek = (res, file', self') \<Longrightarrow>
     reachable get_all_secrets serve int_str strftime set_iter encode repr self'"

section \<open>Unpacking a page\<close>

lemma insert_all_Nil [simp]: "insert_all s [] = s"
  by (simp add: insert_all_def)

lemma insert_all_Cons [simp]:
  "insert_all s (e # es) = insert_all (snd (store_insert s (fst e) (snd e))) es"
  by (simp add: insert_all_def)

lemma insert_all_append: "insert_all s (es @ fs) = insert_all (insert_all s es) fs"
  by (simp add: insert_all_def)

lemma store_insert_ok: "store_insert s t m = (Inr u, s') \<Longrightarrow> accepts s m"
  by (cases s) (auto split: if_splits)

lemma store_insert_accepts: "accepts s m \<Longrightarrow> fst (store_insert s t m) = Inr ()"
  by (cases s) auto

lemma accepts_store_insert [simp]: "accepts (snd (store_insert s t m)) m' = accepts s m'"
  by (cases s) auto

lemma accepts_insert_all [simp]: "accepts (insert_all s es) m = accepts s m"
  by (induction es arbitrary: s) auto

lemma unpack_values_Inr:
  "unpack_values int_str vs (len, pk, s) = (Inr (len', pk'), s') \<Longrightarrow>
     \<exists>es. list_map (decode_entry int_str) vs = Inr es \<and> len' = len + length vs \<and>
          pk' = foldl max pk (map fst es) \<and> s' = insert_all s es \<and>
          (\<forall>e \<in> set es. accepts s (snd e))"
proof (induction vs arbitrary: len pk s)
  case Nil
  then show ?case by simp
next
  case (Cons v vs)
  from Cons.prems obtain a m t s1 u where
    v: "unpack_pair v = Inr (a, m)" and t: "py_int int_str a = Inr t"
    and ins: "store_insert s t m = (Inr u, s1)"
    and rest: "unpack_values int_str vs (len + 1, max pk t, s1) = (Inr (len', pk'), s')"
    by (auto split: sum.splits prod.splits)
  from Cons.IH [OF rest] obtain es where
    es: "list_map (decode_entry int_str) vs = Inr es" "len' = len + 1 + length vs"
      "pk' = foldl max (max pk t) (map fst es)" "s' = insert_all s1 es"
      "\<forall>e \<in> set es. accepts s1 (snd e)"
    by blast
  have d: "decode_entry int_str v = Inr (t, m)"
    using v t by (simp add: decode_entry_def)
  have s1: "s1 = snd (store_insert s t m)" using ins by simp
  have "list_map (decode_entry int_str) (v # vs) = Inr ((t, m) # es)"
    using d es(1) by simp
  moreover have "accepts s m" using ins by (rule store_insert_ok)
  moreover have "\<forall>e \<in> set es. accepts s (snd e)" using es(5) s1 by simp
  ultimately show ?case using es s1 by auto
qed

lemma list_map_length: "list_map f xs = Inr ys \<Longrightarrow> length ys = length xs"
  by (induction xs arbitrary: ys) (auto split: sum.splits)

lemma list_map_append:
  "list_map f xs = Inr as \<Longrightarrow> list_map f ys = Inr bs \<Longrightarrow> list_map f (xs @ ys) = Inr (as @ bs)"
  by (induction xs arbitrary: as) (auto split: sum.splits)

lemma unpack_values_total:
  "list_map (decode_entry int_str) vs = Inr es \<Longrightarrow> \<forall>e \<in> set es. accepts s (snd e) \<Longrightarrow>
     unpack_values int_str vs (len, pk, s) =
       (Inr (len + length vs, foldl max pk (map fst es)), insert_all s es)"
proof (induction vs arbitrary: len pk s es)
  case Nil
  then show ?case by simp
next
  case (Cons v vs)
  from Cons.prems(1) obtain e es' where
    e: "decode_entry int_str v = Inr e" and es': "list_map (decode_entry int_str) vs = Inr es'"
    and es: "es = e # es'"
    by (auto split: sum.splits)
  obtain t m where tm: "e = (t, m)" by (cases e)
  from e tm obtain a where a: "unpack_pair v = Inr (a, m)" "py_int int_str a = Inr t"
    by (auto simp: decode_entry_def split: sum.splits prod.splits)
  have acc: "accepts s m" using Cons.prems(2) es tm by simp
  obtain s1 where s1: "store_insert s t m = (Inr (), s1)"
    using store_insert_accepts [OF acc, of t] by (cases "store_insert s t m") auto
  have "\<forall>e \<in> set es'. accepts s1 (snd e)"
    using Cons.prems(2) es s1 accepts_store_insert [of s t m] by auto
  from Cons.IH [OF es' this, of "len + 1" "max pk t"] show ?case
    using a s1 es tm by simp
qed

lemma unpack_groups_Inr:
  "unpack_groups int_str gs (len, pk, s) = (Inr (len', pk'), s') \<Longrightarrow>
     (\<forall>i \<in> set gs. \<exists>vals. py_getitem i ''values'' = Inr vals \<and> py_iter vals = Inr (group_values i)) \<and>
     (\<exists>es. list_map (decode_entry int_str) (concat (map group_values gs)) = Inr es \<and>
          len' = len + length (concat (map group_values gs)) \<and>
          pk' = foldl max pk (map fst es) \<and> s' = insert_all s es \<and>
          (\<forall>e \<in> set es. accepts s (snd e)))"
proof (induction gs arbitrary: len pk s)
  case Nil
  then show ?case by simp
next
  case (Cons i gs)
  from Cons.prems obtain vals vs len1 pk1 s1 where
    i: "py_getitem i ''values'' = Inr vals" "py_iter vals = Inr vs"
    and uv: "unpack_values int_str vs (len, pk, s) = (Inr (len1, pk1), s1)"
    and rest: "unpack_groups int_str gs (len1, pk1, s1) = (Inr (len', pk'), s')"
    by (auto split: sum.splits prod.splits)
  have gv: "group_values i = vs" using i by (simp add: group_values_def)
  from unpack_values_Inr [OF uv] obtain es1 where
    es1: "list_map (decode_entry int_str) vs = Inr es1" "len1 = len + length vs"
      "pk1 = foldl max pk (map fst es1)" "s1 = insert_all s es1"
      "\<forall>e \<in> set es1. accepts s (snd e)"
    by blast
  from Cons.IH [OF rest] obtain es2 where
    wf: "\<forall>i \<in> set gs. \<exists>vals. py_getitem i ''values'' = Inr vals \<and> py_iter vals = Inr (group_values i)"
    and es2: "list_map (decode_entry int_str) (concat (map group_values gs)) = Inr es2"
      "len' = len1 + length (concat (map group_values gs))"
      "pk' = foldl max pk1 (map fst es2)" "s' = insert_all s1 es2"
      "\<forall>e \<in> set es2. accepts s1 (snd e)"
    by blast
  have a: "list_map (decode_entry int_str) (concat (map group_values (i # gs))) = Inr (es1 @ es2)"
    using list_map_append [OF es1(1) es2(1)] gv by simp
  have b: "len' = len + length (concat (map group_values (i # gs)))"
    using es1(2) es2(2) gv by simp
  have c: "pk' = foldl max pk (map fst (es1 @ es2))"
    using es1(3) es2(3) by simp
  have d: "s' = insert_all s (es1 @ es2)"
    using es1(4) es2(4) by (simp add: insert_all_append)
  have e: "\<forall>e \<in> set (es1 @ es2). accepts s (snd e)"
    using es1(5) es2(5) es1(4) by auto
  have f: "\<forall>j \<in> set (i # gs). \<exists>vals. py_getitem j ''values'' = Inr vals \<and> py_iter vals = Inr (group_values j)"
    using wf i gv by auto
  from a b c d e f show ?case by blast
qed

lemma list_map_concat_split:
  "list_map f (xs @ ys) = Inr zs \<Longrightarrow>
     \<exists>as bs. list_map f xs = Inr as \<and> list_map f ys = Inr bs \<and> zs = as @ bs"
  by (induction xs arbitrary: zs) (auto split: sum.splits)

lemma unpack_groups_total:
  "\<forall>i \<in> set gs. \<exists>vals. py_getitem i ''values'' = Inr vals \<and> py_iter vals = Inr (group_values i) \<Longrightarrow>
   list_map (decode_entry int_str) (concat (map group_values gs)) = Inr es \<Longrightarrow>
   \<forall>e \<in> set es. accepts s (snd e) \<Longrightarrow>
     unpack_groups int_str gs (len, pk, s) =
       (Inr (len + length (concat (map group_values gs)), foldl max pk (map fst es)),
        insert_all s es)"
proof (induction gs arbitrary: len pk s es)
  case Nil
  then show ?case by simp
next
  case (Cons i gs)
  from Cons.prems(1) obtain vals where
    i: "py_getitem i ''values'' = Inr vals" "py_iter vals = Inr (group_values i)"
    by auto
  from Cons.prems(2) obtain es1 es2 where
    es1: "list_map (decode_entry int_str) (group_values i) = Inr es1"
    and es2: "list_map (decode_entry int_str) (concat (map group_values gs)) = Inr es2"
    and es: "es = es1 @ es2"
    using list_map_concat_split [of "decode_entry int_str" "group_values i"
        "concat (map group_values gs)" es]
    by auto
  have acc1: "\<forall>e \<in> set es1. accepts s (snd e)" using Cons.prems(3) es by simp
  have acc2: "\<forall>e \<in> set es2. accepts (insert_all s es1) (snd e)" using Cons.prems(3) es by simp
  have wf: "\<forall>i \<in> set gs. \<exists>vals. py_getitem i ''values'' = Inr vals \<and> py_iter vals = Inr (group_values i)"
    using Cons.prems(1) by simp
  have uv: "unpack_values int_str (group_values i) (len, pk, s) =
      (Inr (len + length (group_values i), foldl max pk (map fst es1)), insert_all s es1)"
    by (rule unpack_values_total [OF es1 acc1])
  show ?case
    using i uv Cons.IH [OF wf es2 acc2] es
    by (simp add: insert_all_append)
qed

lemma unpack_response_Inr:
  assumes "unpack_response int_str self response_data = (Inr (len, pk), self')"
  shows "\<exists>es. list_map (decode_entry int_str) (page_values response_data) = Inr es \<and>
          len = length (page_values response_data) \<and>
          pk = foldl max 0 (map fst es) \<and>
          self' = self\<lparr>priv_logs := insert_all (priv_logs self) es\<rparr> \<and>
          (\<forall>e \<in> set es. accepts (priv_logs self) (snd e))"
proof -
  from assms obtain d r gs s' where
    a: "py_getitem response_data ''data'' = Inr d" "py_getitem d ''result'' = Inr r"
      "py_iter r = Inr gs"
    and ug: "unpack_groups int_str gs (0, 0, priv_logs self) = (Inr (len, pk), s')"
    and self': "self' = self\<lparr>priv_logs := s'\<rparr>"
    by (auto simp: unpack_response_def split: sum.splits prod.splits)
  have pv: "page_values response_data = concat (map group_values gs)"
    using a by (simp add: page_values_def page_groups_def)
  from unpack_groups_Inr [OF ug] show ?thesis
    using pv self' by auto
qed

lemma unpack_response_total:
  assumes "well_formed response_data"
    and "list_map (decode_entry int_str) (page_values response_data) = Inr es"
    and "\<forall>e \<in> set es. accepts (priv_logs self) (snd e)"
  shows "unpack_response int_str self response_data =
           (Inr (length (page_values response_data), foldl max 0 (map fst es)),
            self\<lparr>priv_logs := insert_all (priv_logs self) es\<rparr>)"
proof -
  from assms(1) obtain d r where
    a: "py_getitem response_data ''data'' = Inr d" "py_getitem d ''result'' = Inr r"
      "py_iter r = Inr (page_groups response_data)"
    and wf: "\<forall>i \<in> set (page_groups response_data).
        \<exists>vals. py_getitem i ''values'' = Inr vals \<and> py_iter vals = Inr (group_values i)"
    by (auto simp: well_formed_def)
  have "unpack_groups int_str (page_groups response_data) (0, 0, priv_logs self) =
      (Inr (0 + length (concat (map group_values (page_groups response_data))),
            foldl max 0 (map fst es)), insert_all (priv_logs self) es)"
    using assms(2,3) by (intro unpack_groups_total [OF wf]) (simp_all add: page_values_def)
  then show ?thesis
    using a by (simp add: unpack_response_def page_values_def)
qed

lemma unpack_response_well_formed:
  "unpack_response int_str self response_data = (Inr r, self') \<Longrightarrow> well_formed response_data"
proof -
  assume u: "unpack_response int_str self response_data = (Inr r, self')"
  obtain len pk where r: "r = (len, pk)" by (cases r)
  from u r obtain d rr gs s' where
    a: "py_getitem response_data ''data'' = Inr d" "py_getitem d ''result'' = Inr rr"
      "py_iter rr = Inr gs"
    and ug: "unpack_groups int_str gs (0, 0, priv_logs self) = (Inr (len, pk), s')"
    by (auto simp: unpack_response_def split: sum.splits prod.splits)
  have pg: "page_groups response_data = gs" using a by (simp add: page_groups_def)
  from unpack_groups_Inr [OF ug] a pg show ?thesis
    by (auto simp: well_formed_def)
qed

lemma dict_pairs_Nil [simp]: "dict_pairs [] = []"
  by (simp add: dict_pairs_def)

lemma dict_pairs_Cons [simp]: "dict_pairs ((t, ms) # d) = map (Pair t) ms @ dict_pairs d"
  by (simp add: dict_pairs_def)

lemma dict_pairs_append [simp]: "dict_pairs (d @ d') = dict_pairs d @ dict_pairs d'"
  by (simp add: dict_pairs_def)

lemma set_dict_pairs: "set (dict_pairs d) = {(t, m). \<exists>ms. (t, ms) \<in> set d \<and> m \<in> set ms}"
  by (induction d) auto

lemma distinct_dict_pairs:
  "distinct (map fst d) \<Longrightarrow> \<forall>ms \<in> snd ` set d. distinct ms \<Longrightarrow> distinct (dict_pairs d)"
proof (induction d)
  case Nil
  then show ?case by simp
next
  case (Cons a d)
  obtain t ms where a: "a = (t, ms)" by (cases a)
  have "distinct (map (Pair t) ms)"
    using Cons.prems(2) a by (simp add: distinct_map inj_on_def)
  moreover have "distinct (dict_pairs d)"
    using Cons by simp
  moreover have "set (map (Pair t) ms) \<inter> set (dict_pairs d) = {}"
    using Cons.prems(1) a by (force simp: set_dict_pairs)
  ultimately show ?case using a by simp
qed

lemma map_fst_dict_add [simp]: "map fst (dict_add t m d) = map fst d"
  by (induction d) (auto simp: dict_add_def)

lemma distinct_snd_dict_touch:
  "\<forall>ms \<in> snd ` set d. distinct ms \<Longrightarrow> \<forall>ms \<in> snd ` set (dict_touch t d). distinct ms"
  by (auto simp: dict_touch_def)

lemma dict_touch_keys: "set (map fst (dict_touch t d)) = insert t (set (map fst d))"
  by (auto simp: dict_touch_def)

lemma distinct_dict_touch: "distinct (map fst d) \<Longrightarrow> distinct (map fst (dict_touch t d))"
  by (auto simp: dict_touch_def)

lemma dict_pairs_touch [simp]: "dict_pairs (dict_touch t d) = dict_pairs d"
  by (simp add: dict_touch_def)

lemma distinct_set_add: "distinct ms \<Longrightarrow> distinct (set_add m ms)"
  by (simp add: set_add_def)

lemma set_set_add [simp]: "set (set_add m ms) = insert m (set ms)"
  by (auto simp: set_add_def)

lemma dict_add_sets:
  "\<forall>ms \<in> snd ` set d. distinct ms \<Longrightarrow> \<forall>ms \<in> snd ` set (dict_add t m d). distinct ms"
  by (induction d) (auto simp: dict_add_def distinct_set_add)

lemma dict_add_Nil [simp]: "dict_add t m [] = []"
  by (simp add: dict_add_def)

lemma dict_add_Cons [simp]:
  "dict_add t m ((k, ms) # d) = (if k = t then (k, set_add m ms) else (k, ms)) # dict_add t m d"
  by (simp add: dict_add_def)

lemma dict_pairs_add_upper:
  "set (dict_pairs (dict_add t m d)) \<subseteq> insert (t, m) (set (dict_pairs d))"
  by (induction d) (auto split: if_splits)

lemma dict_pairs_add_lower: "set (dict_pairs d) \<subseteq> set (dict_pairs (dict_add t m d))"
  by (induction d) auto

lemma dict_pairs_add_mem: "t \<in> fst ` set d \<Longrightarrow> (t, m) \<in> set (dict_pairs (dict_add t m d))"
  by (induction d) force+

lemma set_dict_pairs_add:
  "t \<in> fst ` set d \<Longrightarrow> set (dict_pairs (dict_add t m d)) = insert (t, m) (set (dict_pairs d))"
  using dict_pairs_add_upper [of t m d] dict_pairs_add_lower [of d t m]
    dict_pairs_add_mem [of t d m]
  by blast

lemma store_insert_ok_preserved: "store_ok s \<Longrightarrow> store_ok (snd (store_insert s t m))"
proof (cases s)
  case (LogList xs)
  then show ?thesis by simp
next
  case (LogDict d)
  assume ok: "store_ok s"
  have k: "distinct (map fst (dict_touch t d))"
    using ok LogDict by (simp add: distinct_dict_touch)
  have v: "\<forall>ms \<in> snd ` set (dict_touch t d). distinct ms"
    using ok LogDict by (intro distinct_snd_dict_touch) simp
  show ?thesis using LogDict k v dict_add_sets [OF v] by simp
qed

lemma store_insert_pairs:
  "accepts s m \<Longrightarrow>
     set (store_pairs (snd (store_insert s t m))) = insert (t, m) (set (store_pairs s))"
proof (cases s)
  case (LogList xs)
  then show ?thesis by simp
next
  case (LogDict d)
  assume "accepts s m"
  then have h: "hashable m" using LogDict by simp
  have "t \<in> fst ` set (dict_touch t d)"
    using dict_touch_keys [of t d] by auto
  from set_dict_pairs_add [OF this] show ?thesis using LogDict h by simp
qed

lemma store_ok_insert_all: "store_ok s \<Longrightarrow> store_ok (insert_all s es)"
  by (induction es arbitrary: s) (auto simp: store_insert_ok_preserved)

lemma set_store_pairs_insert_all:
  "\<forall>e \<in> set es. accepts s (snd e) \<Longrightarrow>
     set (store_pairs (insert_all s es)) = set (store_pairs s) \<union> set es"
proof (induction es arbitrary: s)
  case Nil
  then show ?case by simp
next
  case (Cons e es)
  have "\<forall>e' \<in> set es. accepts (snd (store_insert s (fst e) (snd e))) (snd e')"
    using Cons.prems by simp
  from Cons.IH [OF this] show ?case
    using Cons.prems store_insert_pairs [of s "snd e" "fst e"] by auto
qed

lemma insert_all_LogList [simp]: "insert_all (LogList xs) es = LogList (xs @ es)"
  by (induction es arbitrary: xs) auto

lemma insert_all_LogDict: "\<exists>d'. insert_all (LogDict d) es = LogDict d'"
  by (induction es arbitrary: d) auto

lemma distinct_store_pairs_dict: "store_ok (LogDict d) \<Longrightarrow> distinct (store_pairs (LogDict d))"
  by (simp add: distinct_dict_pairs)

section \<open>What a page adds to the collection\<close>

lemma length_store_pairs_dict:
  assumes ok: "store_ok (LogDict d)" and acc: "\<forall>e \<in> set es. accepts (LogDict d) (snd e)"
  shows "length (store_pairs (insert_all (LogDict d) es)) =
           length (store_pairs (LogDict d)) + card (set es - set (store_pairs (LogDict d)))"
proof -
  obtain d' where d': "insert_all (LogDict d) es = LogDict d'"
    using insert_all_LogDict by blast
  have "store_ok (LogDict d')"
    using store_ok_insert_all [OF ok, of es] d' by simp
  then have "distinct (store_pairs (LogDict d'))"
    by (rule distinct_store_pairs_dict)
  then have "length (store_pairs (LogDict d')) = card (set (store_pairs (LogDict d')))"
    by (simp add: distinct_card)
  also have "set (store_pairs (LogDict d')) = set (store_pairs (LogDict d)) \<union> set es"
    using set_store_pairs_insert_all [OF acc] d' by simp
  also have "card (set (store_pairs (LogDict d)) \<union> set es) =
      card (set (store_pairs (LogDict d))) + card (set es - set (store_pairs (LogDict d)))"
    by (metis List.finite_set Un_Diff_cancel card_Un_disjoint Diff_disjoint finite_Diff)
  also have "card (set (store_pairs (LogDict d))) = length (store_pairs (LogDict d))"
    using distinct_store_pairs_dict [OF ok] by (simp add: distinct_card)
  finally show ?thesis using d' by simp
qed

text \<open>
  Claim C4, as amended. When \<^verbatim>\<open>_unpack_response\<close> returns, the length it returns is
  the number of \<open>values\<close> entries of all the result groups of the response, under
  both policies. Under the ordered-list policy the entries of the page are appended, so
  the collection grows by that number of pairs. Under the grouped-set policy it grows by
  the number of distinct pairs of the page that it did not hold before.
\<close>

theorem unpack_response_count:
  assumes "unpack_response int_str self response_data = (Inr (len, pk), self')"
    and "store_ok (priv_logs self)"
  shows "len = length (page_values response_data) \<and>
         (\<exists>es. list_map (decode_entry int_str) (page_values response_data) = Inr es \<and>
            (case priv_logs self of
               LogList xs \<Rightarrow>
                 priv_logs self' = LogList (xs @ es) \<and>
                 length (store_pairs (priv_logs self')) =
                   length (store_pairs (priv_logs self)) + length (page_values response_data)
             | LogDict d \<Rightarrow>
                 length (store_pairs (priv_logs self')) =
                   length (store_pairs (priv_logs self)) +
                   card (set es - set (store_pairs (priv_logs self)))))"
proof -
  from unpack_response_Inr [OF assms(1)] obtain es where
    es: "list_map (decode_entry int_str) (page_values response_data) = Inr es"
    and len: "len = length (page_values response_data)"
    and self': "self' = self\<lparr>priv_logs := insert_all (priv_logs self) es\<rparr>"
    and acc: "\<forall>e \<in> set es. accepts (priv_logs self) (snd e)"
    by blast
  have n: "length es = length (page_values response_data)"
    using es by (rule list_map_length)
  have "case priv_logs self of
          LogList xs \<Rightarrow>
            priv_logs self' = LogList (xs @ es) \<and>
            length (store_pairs (priv_logs self')) =
              length (store_pairs (priv_logs self)) + length (page_values response_data)
        | LogDict d \<Rightarrow>
            length (store_pairs (priv_logs self')) =
              length (store_pairs (priv_logs self)) +
              card (set es - set (store_pairs (priv_logs self)))"
  proof (cases "priv_logs self")
    case (LogList xs)
    then show ?thesis using self' n by simp
  next
    case (LogDict d)
    then show ?thesis
      using self' length_store_pairs_dict [of d es] assms(2) acc by simp
  qed
  with es len show ?thesis by blast
qed

theorem unpack_response_count_witness:
  "unpack_response dec_int (new_fetcher dict_t 5000)
       (response [[(''5'', ''a''), (''5'', ''a''), (''6'', ''a'')]]) =
     (Inr (3, 6),
      (new_fetcher dict_t 5000)\<lparr>priv_logs := LogDict [(5, [JStr ''a'']), (6, [JStr ''a''])]\<rparr>) \<and>
   store_ok (priv_logs (new_fetcher dict_t 5000)) \<and>
   (3::nat) = length (page_values (response [[(''5'', ''a''), (''5'', ''a''), (''6'', ''a'')]])) \<and>
   length (store_pairs (LogDict [(5, [JStr ''a'']), (6, [JStr ''a''])])) = 2"
proof -
  have h1: "unpack_response dec_int (new_fetcher dict_t 5000)
       (response [[(''5'', ''a''), (''5'', ''a''), (''6'', ''a'')]]) =
     (Inr (3, 6),
      (new_fetcher dict_t 5000)\<lparr>priv_logs := LogDict [(5, [JStr ''a'']), (6, [JStr ''a''])]\<rparr>)"
    by (simp add: unpack_response_def response_def new_fetcher_def unpack_pair_def
        dec_int_def digit_of_def dict_touch_def set_add_def)
  have h2: "store_ok (priv_logs (new_fetcher dict_t 5000))"
    by (simp add: new_fetcher_def)
  from unpack_response_count [OF h1 h2] show ?thesis
    using h1 h2 by simp
qed

text \<open>
  Claim C4 as stated fails under the grouped-set policy: a page with the same entry
  twice has two \<open>values\<close> entries and adds one pair to an empty collection.
\<close>

theorem unpack_response_dict_counterexample:
  "fst (unpack_response dec_int (new_fetcher dict_t 5000)
          (response [[(''5'', ''a''), (''5'', ''a'')]])) = Inr (2, 5) \<and>
   length (store_pairs (priv_logs (snd (unpack_response dec_int (new_fetcher dict_t 5000)
          (response [[(''5'', ''a''), (''5'', ''a'')]]))))) -
     length (store_pairs (priv_logs (new_fetcher dict_t 5000))) \<noteq>
   length (page_values (response [[(''5'', ''a''), (''5'', ''a'')]]))"
  by (simp add: unpack_response_def response_def new_fetcher_def unpack_pair_def
      dec_int_def digit_of_def dict_touch_def set_add_def
      page_values_def page_groups_def group_values_def)

section \<open>One call of \<^verbatim>\<open>fetch_logs\<close>\<close>

lemma store_le_refl [simp]: "store_le s s"
  by (cases s) auto

lemma store_le_trans: "store_le a b \<Longrightarrow> store_le b c \<Longrightarrow> store_le a c"
  by (cases a; cases b; cases c) auto

lemma store_le_insert: "store_le s (snd (store_insert s t m))"
proof (cases s)
  case (LogList xs)
  then show ?thesis by simp
next
  case (LogDict d)
  then show ?thesis
    using dict_pairs_add_lower [of "dict_touch t d" t m] by simp
qed

lemma store_le_unpack_values:
  "unpack_values int_str vs (len, pk, s) = (res, s') \<Longrightarrow> store_le s s'"
proof (induction vs arbitrary: len pk s)
  case Nil
  then show ?case by auto
next
  case (Cons v vs)
  show ?case
  proof (cases "decode_entry int_str v")
    case (Inl e)
    then have "s' = s" using Cons.prems
      by (auto simp: decode_entry_def split: sum.splits prod.splits)
    then show ?thesis by simp
  next
    case (Inr tm)
    obtain t m where tm: "tm = (t, m)" by (cases tm)
    from Inr tm obtain a where a: "unpack_pair v = Inr (a, m)" "py_int int_str a = Inr t"
      by (auto simp: decode_entry_def split: sum.splits prod.splits)
    obtain r s1 where ins: "store_insert s t m = (r, s1)" by (cases "store_insert s t m")
    have le1: "store_le s s1" using store_le_insert [of s t m] ins by simp
    show ?thesis
    proof (cases r)
      case (Inl e)
      then have "s' = s1" using Cons.prems a ins by simp
      then show ?thesis using le1 by simp
    next
      case (Inr u)
      then have "unpack_values int_str vs (len + 1, max pk t, s1) = (res, s')"
        using Cons.prems a ins by simp
      from Cons.IH [OF this] le1 show ?thesis by (blast intro: store_le_trans)
    qed
  qed
qed

lemma store_le_unpack_groups:
  "unpack_groups int_str gs (len, pk, s) = (res, s') \<Longrightarrow> store_le s s'"
proof (induction gs arbitrary: len pk s)
  case Nil
  then show ?case by auto
next
  case (Cons i gs)
  show ?case
  proof (cases "py_getitem i ''values''")
    case (Inl e)
    then show ?thesis using Cons.prems by auto
  next
    case vals: (Inr vals)
    show ?thesis
    proof (cases "py_iter vals")
      case (Inl e)
      then show ?thesis using Cons.prems vals by auto
    next
      case vs: (Inr vs)
      obtain r s1 where uv: "unpack_values int_str vs (len, pk, s) = (r, s1)"
        by (cases "unpack_values int_str vs (len, pk, s)")
      have le1: "store_le s s1" using uv by (rule store_le_unpack_values)
      show ?thesis
      proof (cases r)
        case (Inl e)
        then have "s' = s1" using Cons.prems vals vs uv by simp
        then show ?thesis using le1 by simp
      next
        case (Inr lp)
        obtain len1 pk1 where lp: "lp = (len1, pk1)" by (cases lp)
        have "unpack_groups int_str gs (len1, pk1, s1) = (res, s')"
          using Cons.prems vals vs uv Inr lp by simp
        from Cons.IH [OF this] le1 show ?thesis by (blast intro: store_le_trans)
      qed
    qed
  qed
qed

lemma unpack_response_fields:
  "unpack_response int_str self response_data = (res, self') \<Longrightarrow>
     \<exists>s'. self' = self\<lparr>priv_logs := s'\<rparr> \<and> store_le (priv_logs self) s'"
proof -
  assume u: "unpack_response int_str self response_data = (res, self')"
  have triv: "self\<lparr>priv_logs := priv_logs self\<rparr> = self" by simp
  show ?thesis
  proof (cases "\<exists>d r gs. py_getitem response_data ''data'' = Inr d \<and>
      py_getitem d ''result'' = Inr r \<and> py_iter r = Inr gs")
    case True
    then obtain d r gs where a: "py_getitem response_data ''data'' = Inr d"
      "py_getitem d ''result'' = Inr r" "py_iter r = Inr gs" by blast
    obtain res1 s1 where ug: "unpack_groups int_str gs (0, 0, priv_logs self) = (res1, s1)"
      by (cases "unpack_groups int_str gs (0, 0, priv_logs self)")
    have "self' = self\<lparr>priv_logs := s1\<rparr>"
      using u a ug by (simp add: unpack_response_def)
    moreover have "store_le (priv_logs self) s1"
      using ug by (rule store_le_unpack_groups)
    ultimately show ?thesis by blast
  next
    case False
    then have "self' = self"
      using u by (auto simp: unpack_response_def split: sum.splits)
    then show ?thesis using triv store_le_refl by metis
  qed
qed

lemma fetch_logs_transport_error:
  assumes "serve (service w) (request_of self q st dir) = (Inl e, s')"
  shows "fetch_logs serve int_str (Suc fuel) self w q st fetch_all dir =
           Some (Inl e, self\<lparr>priv_result := None\<rparr>,
                 \<lparr>sent = sent w @ [request_of self q st dir], service = s'\<rparr>)"
  using assms by (simp add: requests_get_def request_of_def)

lemma fetch_logs_unpack_error:
  assumes "serve (service w) (request_of self q st dir) = (Inr response_data, s')"
    and "unpack_response int_str (self\<lparr>priv_result := None\<rparr>) response_data = (Inl e, self')"
  shows "fetch_logs serve int_str (Suc fuel) self w q st fetch_all dir =
           Some (Inl e, self', \<lparr>sent = sent w @ [request_of self q st dir], service = s'\<rparr>)"
  using assms by (simp add: requests_get_def request_of_def)

lemma unpack_response_query_limit:
  "unpack_response int_str self response_data = (res, self') \<Longrightarrow>
     query_limit self' = query_limit self \<and> next_chunk_step_ns self' = next_chunk_step_ns self \<and>
     url self' = url self \<and> priv_result self' = priv_result self \<and>
     date_format self' = date_format self \<and> data_parse_structure self' = data_parse_structure self"
  using unpack_response_fields [of int_str self response_data res self'] by auto

lemma fetch_logs_stop:
  assumes "serve (service w) (request_of self q st dir) = (Inr response_data, s')"
    and "unpack_response int_str (self\<lparr>priv_result := None\<rparr>) response_data =
           (Inr (len, pk), self')"
    and "\<not> fetch_all \<or> int len \<noteq> query_limit self"
  shows "fetch_logs serve int_str (Suc fuel) self w q st fetch_all dir =
           Some (Inr (), self', \<lparr>sent = sent w @ [request_of self q st dir], service = s'\<rparr>)"
  using assms unpack_response_query_limit [OF assms(2)]
  by (auto simp: requests_get_def request_of_def)

lemma fetch_logs_continue:
  assumes "serve (service w) (request_of self q st dir) = (Inr response_data, s')"
    and "unpack_response int_str (self\<lparr>priv_result := None\<rparr>) response_data =
           (Inr (len, pk), self')"
    and "int len = query_limit self"
  shows "fetch_logs serve int_str (Suc fuel) self w q st True dir =
           fetch_logs serve int_str fuel self'
             \<lparr>sent = sent w @ [request_of self q st dir], service = s'\<rparr> q
             (pk + next_chunk_step_ns self) True forward"
  using assms unpack_response_query_limit [OF assms(2)]
  by (auto simp: requests_get_def request_of_def)

section \<open>Pages that unpack\<close>

lemma unpack_response_page_ok:
  assumes "page_ok int_str self p"
  shows "unpack_response int_str self p =
           (Inr (length (page_values p), page_peak int_str p),
            self\<lparr>priv_logs := insert_all (priv_logs self) (page_entries int_str p)\<rparr>)"
proof -
  from assms obtain es where wf: "well_formed p"
    and es: "list_map (decode_entry int_str) (page_values p) = Inr es"
    and acc: "\<forall>e \<in> set es. accepts (priv_logs self) (snd e)"
    by (auto simp: page_ok_def)
  have "page_entries int_str p = es" using es by (simp add: page_entries_def)
  then show ?thesis
    using unpack_response_total [OF wf es acc] by (simp add: page_peak_def)
qed

lemma page_ok_iff:
  "page_ok int_str self p \<longleftrightarrow> (\<exists>r self'. unpack_response int_str self p = (Inr r, self'))"
proof
  assume "page_ok int_str self p"
  from unpack_response_page_ok [OF this] show "\<exists>r self'. unpack_response int_str self p = (Inr r, self')"
    by blast
next
  assume "\<exists>r self'. unpack_response int_str self p = (Inr r, self')"
  then obtain len pk self' where u: "unpack_response int_str self p = (Inr (len, pk), self')"
    by auto
  from unpack_response_Inr [OF u] unpack_response_well_formed [OF u]
  show "page_ok int_str self p" by (auto simp: page_ok_def)
qed

lemma page_ok_accepts:
  "(\<And>m. accepts (priv_logs self') m = accepts (priv_logs self) m) \<Longrightarrow>
     page_ok int_str self' p = page_ok int_str self p"
  by (simp add: page_ok_def)

lemma page_ok_step [simp]:
  "page_ok int_str (self\<lparr>priv_result := r, priv_logs := insert_all (priv_logs self) es\<rparr>) p =
     page_ok int_str self p"
  by (rule page_ok_accepts) simp

lemma page_ok_result [simp]: "page_ok int_str (self\<lparr>priv_result := r\<rparr>) p = page_ok int_str self p"
  by (rule page_ok_accepts) simp

lemma foldl_max_Max: "foldl max a xs = Max (insert a (set xs))" for a :: int
proof (induction xs arbitrary: a)
  case Nil
  then show ?case by simp
next
  case (Cons x xs)
  have "Max (insert (max a x) (set xs)) = Max (insert a (insert x (set xs)))"
    by (cases "set xs = {}") (auto simp: max.assoc)
  then show ?case using Cons by simp
qed

lemma page_peak_Max:
  assumes "page_entries int_str p \<noteq> []" and "\<forall>e \<in> set (page_entries int_str p). 0 \<le> fst e"
  shows "page_peak int_str p = Max (fst ` set (page_entries int_str p))"
proof -
  let ?S = "fst ` set (page_entries int_str p)"
  have ne: "?S \<noteq> {}" using assms(1) by simp
  from assms(1) obtain e where e: "e \<in> set (page_entries int_str p)"
    by (cases "page_entries int_str p") auto
  have le: "fst e \<le> Max ?S"
    using e by (intro Max_ge) auto
  have "0 \<le> fst e"
    using assms(2) e by blast
  with le have "0 \<le> Max ?S"
    by linarith
  then have "Max (insert 0 ?S) = Max ?S"
    using ne by (simp add: max_def)
  then show ?thesis by (simp add: page_peak_def foldl_max_Max)
qed

lemma page_entries_length:
  "page_ok int_str self p \<Longrightarrow> length (page_entries int_str p) = length (page_values p)"
  by (auto simp: page_ok_def page_entries_def dest: list_map_length)

text \<open>
  One call on a page that unpacks: it ends the fetch unless the page has exactly
  \<^verbatim>\<open>query_limit\<close> entries and \<^verbatim>\<open>fetch_all\<close> is set, and then the next call asks
  for the same query from the peak of the page plus the step, forward.
\<close>

lemma fetch_logs_page_stop:
  assumes "serve (service w) (request_of self q st dir) = (Inr p, s')"
    and "page_ok int_str self p"
    and "\<not> fetch_all \<or> int (length (page_values p)) \<noteq> query_limit self"
  shows "fetch_logs serve int_str (Suc fuel) self w q st fetch_all dir =
           Some (Inr (),
                 self\<lparr>priv_result := None,
                      priv_logs := insert_all (priv_logs self) (page_entries int_str p)\<rparr>,
                 \<lparr>sent = sent w @ [request_of self q st dir], service = s'\<rparr>)"
proof -
  have ok: "page_ok int_str (self\<lparr>priv_result := None\<rparr>) p" using assms(2) by simp
  have u: "unpack_response int_str (self\<lparr>priv_result := None\<rparr>) p =
      (Inr (length (page_values p), page_peak int_str p),
       self\<lparr>priv_result := None,
            priv_logs := insert_all (priv_logs self) (page_entries int_str p)\<rparr>)"
    using unpack_response_page_ok [OF ok] by simp
  show ?thesis
    using assms(1,3) u by (auto simp: requests_get_def request_of_def)
qed

lemma fetch_logs_page_continue:
  assumes "serve (service w) (request_of self q st dir) = (Inr p, s')"
    and "page_ok int_str self p"
    and "int (length (page_values p)) = query_limit self"
  shows "fetch_logs serve int_str (Suc fuel) self w q st True dir =
           fetch_logs serve int_str fuel
             (self\<lparr>priv_result := None,
                   priv_logs := insert_all (priv_logs self) (page_entries int_str p)\<rparr>)
             \<lparr>sent = sent w @ [request_of self q st dir], service = s'\<rparr> q
             (page_peak int_str p + next_chunk_step_ns self) True forward"
proof -
  have ok: "page_ok int_str (self\<lparr>priv_result := None\<rparr>) p" using assms(2) by simp
  have u: "unpack_response int_str (self\<lparr>priv_result := None\<rparr>) p =
      (Inr (length (page_values p), page_peak int_str p),
       self\<lparr>priv_result := None,
            priv_logs := insert_all (priv_logs self) (page_entries int_str p)\<rparr>)"
    using unpack_response_page_ok [OF ok] by simp
  show ?thesis
    using assms(1,3) u by (auto simp: requests_get_def request_of_def)
qed

section \<open>Pagination\<close>

lemma page_ok_accepts_entries:
  assumes "page_ok int_str self p"
  shows "\<forall>e \<in> set (page_entries int_str p). accepts (priv_logs self) (snd e)"
proof -
  from assms obtain es where es: "list_map (decode_entry int_str) (page_values p) = Inr es"
    and acc: "\<forall>e \<in> set es. accepts (priv_logs self) (snd e)"
    by (auto simp: page_ok_def)
  have "page_entries int_str p = es" using es by (simp add: page_entries_def)
  then show ?thesis using acc by simp
qed

text \<open>
  Claim C9. A page that unpacks and has a number of entries other than
  \<^verbatim>\<open>query_limit\<close>, strictly more in particular, ends the fetch although
  \<^verbatim>\<open>fetch_all\<close> is set: one request is sent, none follows, the call returns within
  one unit of fuel, and every entry of the page is in the collection.
\<close>

theorem fetch_logs_no_followup_unless_equal:
  assumes "serve (service w) (request_of self q st dir) = (Inr p, s')"
    and "page_ok int_str self p"
    and "query_limit self < int (length (page_values p)) \<or>
         int (length (page_values p)) < query_limit self"
  shows "fetch_logs serve int_str (Suc fuel) self w q st True dir =
           Some (Inr (),
                 self\<lparr>priv_result := None,
                      priv_logs := insert_all (priv_logs self) (page_entries int_str p)\<rparr>,
                 \<lparr>sent = sent w @ [request_of self q st dir], service = s'\<rparr>) \<and>
         length (page_entries int_str p) = length (page_values p) \<and>
         set (page_entries int_str p) \<subseteq>
           set (store_pairs (insert_all (priv_logs self) (page_entries int_str p)))"
proof -
  have ne: "\<not> True \<or> int (length (page_values p)) \<noteq> query_limit self"
    using assms(3) by auto
  have acc: "\<forall>e \<in> set (page_entries int_str p). accepts (priv_logs self) (snd e)"
    using assms(2) by (rule page_ok_accepts_entries)
  have "set (page_entries int_str p) \<subseteq>
      set (store_pairs (insert_all (priv_logs self) (page_entries int_str p)))"
    using set_store_pairs_insert_all [OF acc] by simp
  then show ?thesis
    using fetch_logs_page_stop [where serve = serve and w = w and fetch_all = True and fuel = fuel,
        OF assms(1,2) ne]
      page_entries_length [OF assms(2)]
    by simp
qed

lemma response_values:
  "page_values (response gs) = map (\<lambda>(t, m). JArr [JStr t, JStr m]) (concat gs)"
  by (induction gs)
     (simp_all add: page_values_def page_groups_def group_values_def response_def map_concat)

lemmas run_defs =
  unpack_response_def response_def new_fetcher_def unpack_pair_def dec_int_def digit_of_def
  dict_touch_def set_add_def page_values_def page_groups_def group_values_def
  page_entries_def decode_entry_def request_of_def requests_get_def page_peak_def

lemma page_ok_run:
  "page_ok int_str self p \<longleftrightarrow> (case unpack_response int_str self p of (Inr r, s) \<Rightarrow> True | _ \<Rightarrow> False)"
  by (auto simp: page_ok_iff split: sum.splits prod.splits)

theorem fetch_logs_no_followup_unless_equal_witness:
  "serve_script [Inr (response [[(''5'', ''a''), (''6'', ''b'')]]), Inr (response [[(''7'', ''c'')]])]
       (request_of (new_fetcher list_t 1) ''q'' 0 forward) =
     (Inr (response [[(''5'', ''a''), (''6'', ''b'')]]), [Inr (response [[(''7'', ''c'')]])]) \<and>
   page_ok dec_int (new_fetcher list_t 1) (response [[(''5'', ''a''), (''6'', ''b'')]]) \<and>
   query_limit (new_fetcher list_t 1) <
     int (length (page_values (response [[(''5'', ''a''), (''6'', ''b'')]]))) \<and>
   fetch_logs serve_script dec_int (Suc 0) (new_fetcher list_t 1)
       \<lparr>sent = [],
        service = [Inr (response [[(''5'', ''a''), (''6'', ''b'')]]),
                   Inr (response [[(''7'', ''c'')]])]\<rparr> ''q'' 0 True forward =
     Some (Inr (),
           (new_fetcher list_t 1)\<lparr>priv_logs := LogList [(5, JStr ''a''), (6, JStr ''b'')]\<rparr>,
           \<lparr>sent = [request_of (new_fetcher list_t 1) ''q'' 0 forward],
            service = [Inr (response [[(''7'', ''c'')]])]\<rparr>)"
proof -
  let ?p = "response [[(''5'', ''a''), (''6'', ''b'')]]"
  let ?w = "\<lparr>sent = [], service = [Inr ?p, Inr (response [[(''7'', ''c'')]])]\<rparr>"
  have h1: "serve_script (service ?w) (request_of (new_fetcher list_t 1) ''q'' 0 forward) =
      (Inr ?p, [Inr (response [[(''7'', ''c'')]])])"
    by simp
  have h2: "page_ok dec_int (new_fetcher list_t 1) ?p"
    by (simp add: page_ok_run run_defs)
  have h3: "query_limit (new_fetcher list_t 1) < int (length (page_values ?p)) \<or>
      int (length (page_values ?p)) < query_limit (new_fetcher list_t 1)"
    by (simp add: run_defs)
  have e: "page_entries dec_int ?p = [(5, JStr ''a''), (6, JStr ''b'')]"
    by (simp add: run_defs)
  from fetch_logs_no_followup_unless_equal
    [where serve = serve_script and w = ?w and fuel = 0, OF h1 h2 h3]
  show ?thesis
    using h1 h2 e by (simp add: new_fetcher_def response_values)
qed

text \<open>
  Claim C1 fails on the code at a fetch whose direction is \<^verbatim>\<open>backward\<close>. With a page
  limit of 1 and a first page of one entry at timestamp 5, the follow-up request has
  the same query and starts at 5 + 1, and the entry of the first page is kept, but its
  direction is \<^verbatim>\<open>forward\<close>: the recursive call does not pass the direction on.
\<close>

theorem fetch_logs_backward_followup:
  "fetch_logs serve_script dec_int (Suc (Suc 0)) (new_fetcher list_t 1)
       \<lparr>sent = [], service = [Inr (response [[(''5'', ''a'')]]), Inr (response [[]])]\<rparr>
       ''q'' 0 True backward =
     Some (Inr (),
           (new_fetcher list_t 1)\<lparr>priv_logs := LogList [(5, JStr ''a'')]\<rparr>,
           \<lparr>sent =
              [\<lparr>req_url = url (new_fetcher list_t 1), limit = 1, direction = backward,
                start = 0, query = ''q''\<rparr>,
               \<lparr>req_url = url (new_fetcher list_t 1), limit = 1, direction = forward,
                start = 6, query = ''q''\<rparr>],
            service = []\<rparr>)"
  by (simp add: run_defs)

lemma request_of_step [simp]:
  "request_of (self\<lparr>priv_result := r, priv_logs := s\<rparr>) q st dir = request_of self q st dir"
  by (simp add: request_of_def)

text \<open>
  Claim C3 as stated fails when the second page has only negative timestamps: the peak
  of a page is counted from 0, so after the pages with timestamps 5 and 7, then -9 and
  -8, the third request starts at 0 + 1 and not at the greatest timestamp of the second
  page plus the step, which is -7.
\<close>

theorem fetch_logs_three_pages_counterexample:
  "fetch_logs serve_script dec_int (Suc (Suc (Suc 0))) (new_fetcher list_t 2)
       \<lparr>sent = [],
        service = [Inr (response [[(''5'', ''a''), (''7'', ''b'')]]),
                   Inr (response [[(''-9'', ''c''), (''-8'', ''d'')]]),
                   Inr (response [[(''11'', ''e'')]])]\<rparr> ''q'' 0 True forward =
     Some (Inr (),
           (new_fetcher list_t 2)
             \<lparr>priv_logs := LogList [(5, JStr ''a''), (7, JStr ''b''), (- 9, JStr ''c''),
                                   (- 8, JStr ''d''), (11, JStr ''e'')]\<rparr>,
           \<lparr>sent = [request_of (new_fetcher list_t 2) ''q'' 0 forward,
                    request_of (new_fetcher list_t 2) ''q'' 8 forward,
                    request_of (new_fetcher list_t 2) ''q'' 1 forward],
            service = []\<rparr>) \<and>
   Max (fst ` set (page_entries dec_int (response [[(''-9'', ''c''), (''-8'', ''d'')]]))) +
     next_chunk_step_ns (new_fetcher list_t 2) = - 7"
  by (simp add: run_defs)

text \<open>
  Claim C3, as amended. With a page limit of 2 and a service that answers two pages of
  two entries and then a page of one entry, all of which unpack, a fetch with
  \<^verbatim>\<open>fetch_all\<close> set returns within three calls, having sent exactly three requests
  and used exactly three answers; the third request starts at the peak of the second
  page plus \<^verbatim>\<open>next_chunk_step_ns\<close>, where the peak is the greatest of 0 and the
  timestamps of the page, and so the greatest timestamp of the page when these are
  non-negative. In general a call sends no follow-up request when \<^verbatim>\<open>fetch_all\<close> is
  not set or when the page has fewer than \<^verbatim>\<open>query_limit\<close> entries.
\<close>

theorem fetch_logs_three_pages:
  assumes "query_limit self = 2"
    and "page_ok int_str self p1" and "length (page_values p1) = 2"
    and "page_ok int_str self p2" and "length (page_values p2) = 2"
    and "page_ok int_str self p3" and "length (page_values p3) = 1"
  shows "fetch_logs serve_script int_str (Suc (Suc (Suc fuel))) self
             \<lparr>sent = [], service = Inr p1 # Inr p2 # Inr p3 # rest\<rparr> q st True dir =
           Some (Inr (),
                 self\<lparr>priv_result := None,
                      priv_logs := insert_all (priv_logs self)
                        (page_entries int_str p1 @ page_entries int_str p2 @
                         page_entries int_str p3)\<rparr>,
                 \<lparr>sent =
                    [request_of self q st dir,
                     request_of self q (page_peak int_str p1 + next_chunk_step_ns self) forward,
                     request_of self q
                       (Max (insert 0 (fst ` set (page_entries int_str p2))) +
                        next_chunk_step_ns self)
                       forward],
                  service = rest\<rparr>) \<and>
         ((\<forall>e \<in> set (page_entries int_str p2). 0 \<le> fst e) \<longrightarrow>
            Max (insert 0 (fst ` set (page_entries int_str p2))) =
              Max (fst ` set (page_entries int_str p2))) \<and>
         (serve2 (service w2) (request_of self2 q2 st2 dir2) = (Inr p, s2) \<and>
          page_ok int_str self2 p \<and>
          (\<not> fetch_all \<or> int (length (page_values p)) < query_limit self2) \<longrightarrow>
          fetch_logs serve2 int_str (Suc n) self2 w2 q2 st2 fetch_all dir2 =
            Some (Inr (),
                  self2\<lparr>priv_result := None,
                        priv_logs := insert_all (priv_logs self2) (page_entries int_str p)\<rparr>,
                  \<lparr>sent = sent w2 @ [request_of self2 q2 st2 dir2], service = s2\<rparr>))"
proof -
  let ?w0 = "\<lparr>sent = [], service = Inr p1 # Inr p2 # Inr p3 # rest\<rparr>"
  let ?self1 = "self\<lparr>priv_result := None,
                    priv_logs := insert_all (priv_logs self) (page_entries int_str p1)\<rparr>"
  let ?w1 = "\<lparr>sent = sent ?w0 @ [request_of self q st dir], service = Inr p2 # Inr p3 # rest\<rparr>"
  let ?st1 = "page_peak int_str p1 + next_chunk_step_ns self"
  let ?self2 = "?self1\<lparr>priv_result := None,
                    priv_logs := insert_all (priv_logs ?self1) (page_entries int_str p2)\<rparr>"
  let ?w2 = "\<lparr>sent = sent ?w1 @ [request_of ?self1 q ?st1 forward], service = Inr p3 # rest\<rparr>"
  let ?st2 = "page_peak int_str p2 + next_chunk_step_ns ?self1"
  have s1: "serve_script (service ?w0) (request_of self q st dir) = (Inr p1, Inr p2 # Inr p3 # rest)"
    by simp
  have l1: "int (length (page_values p1)) = query_limit self"
    using assms(1,3) by simp
  have c1: "fetch_logs serve_script int_str (Suc (Suc (Suc fuel))) self ?w0 q st True dir =
      fetch_logs serve_script int_str (Suc (Suc fuel)) ?self1 ?w1 q ?st1 True forward"
    by (rule fetch_logs_page_continue
        [where serve = serve_script and w = ?w0, OF s1 assms(2) l1])
  have s2: "serve_script (service ?w1) (request_of ?self1 q ?st1 forward) = (Inr p2, Inr p3 # rest)"
    by simp
  have ok2: "page_ok int_str ?self1 p2" using assms(4) by simp
  have l2: "int (length (page_values p2)) = query_limit ?self1"
    using assms(1,5) by simp
  have c2: "fetch_logs serve_script int_str (Suc (Suc fuel)) ?self1 ?w1 q ?st1 True forward =
      fetch_logs serve_script int_str (Suc fuel) ?self2 ?w2 q ?st2 True forward"
    by (rule fetch_logs_page_continue
        [where serve = serve_script and w = ?w1, OF s2 ok2 l2])
  have s3: "serve_script (service ?w2) (request_of ?self2 q ?st2 forward) = (Inr p3, rest)"
    by simp
  have ok3: "page_ok int_str ?self2 p3"
    using assms(6) by (simp add: insert_all_append [symmetric])
  have l3: "\<not> True \<or> int (length (page_values p3)) \<noteq> query_limit ?self2"
    using assms(1,7) by simp
  have c3: "fetch_logs serve_script int_str (Suc fuel) ?self2 ?w2 q ?st2 True forward =
      Some (Inr (),
            ?self2\<lparr>priv_result := None,
                   priv_logs := insert_all (priv_logs ?self2) (page_entries int_str p3)\<rparr>,
            \<lparr>sent = sent ?w2 @ [request_of ?self2 q ?st2 forward], service = rest\<rparr>)"
    by (rule fetch_logs_page_stop
        [where serve = serve_script and w = ?w2 and fetch_all = True, OF s3 ok3 l3])
  have ne: "page_entries int_str p2 \<noteq> []"
    using page_entries_length [OF assms(4)] assms(5) by auto
  have pk: "page_peak int_str p2 = Max (insert 0 (fst ` set (page_entries int_str p2)))"
    by (simp add: page_peak_def foldl_max_Max)
  have nonneg: "Max (insert 0 (fst ` set (page_entries int_str p2))) =
      Max (fst ` set (page_entries int_str p2))"
    if h: "\<forall>e \<in> set (page_entries int_str p2). 0 \<le> fst e"
    using page_peak_Max [OF ne h] pk by simp
  have scenario: "fetch_logs serve_script int_str (Suc (Suc (Suc fuel))) self ?w0 q st True dir =
           Some (Inr (),
                 self\<lparr>priv_result := None,
                      priv_logs := insert_all (priv_logs self)
                        (page_entries int_str p1 @ page_entries int_str p2 @
                         page_entries int_str p3)\<rparr>,
                 \<lparr>sent =
                    [request_of self q st dir,
                     request_of self q (page_peak int_str p1 + next_chunk_step_ns self) forward,
                     request_of self q
                       (Max (insert 0 (fst ` set (page_entries int_str p2))) +
                        next_chunk_step_ns self)
                       forward],
                  service = rest\<rparr>)"
    unfolding c1 c2 c3 by (simp add: pk insert_all_append)
  have stop: "fetch_logs serve2 int_str (Suc n) self2 w2 q2 st2 fetch_all dir2 =
            Some (Inr (),
                  self2\<lparr>priv_result := None,
                        priv_logs := insert_all (priv_logs self2) (page_entries int_str p)\<rparr>,
                  \<lparr>sent = sent w2 @ [request_of self2 q2 st2 dir2], service = s2\<rparr>)"
    if h: "serve2 (service w2) (request_of self2 q2 st2 dir2) = (Inr p, s2)"
      "page_ok int_str self2 p"
      "\<not> fetch_all \<or> int (length (page_values p)) < query_limit self2"
  proof -
    have "\<not> fetch_all \<or> int (length (page_values p)) \<noteq> query_limit self2"
      using h(3) by auto
    then show ?thesis
      by (rule fetch_logs_page_stop [where serve = serve2 and w = w2, OF h(1,2)])
  qed
  from scenario nonneg stop show ?thesis by blast
qed

theorem fetch_logs_three_pages_witness:
  "query_limit (new_fetcher list_t 2) = 2 \<and>
   page_ok dec_int (new_fetcher list_t 2) (response [[(''5'', ''a''), (''7'', ''b'')]]) \<and>
   length (page_values (response [[(''5'', ''a''), (''7'', ''b'')]])) = 2 \<and>
   page_ok dec_int (new_fetcher list_t 2) (response [[(''9'', ''c'')], [(''8'', ''d'')]]) \<and>
   length (page_values (response [[(''9'', ''c'')], [(''8'', ''d'')]])) = 2 \<and>
   page_ok dec_int (new_fetcher list_t 2) (response [[(''11'', ''e'')]]) \<and>
   length (page_values (response [[(''11'', ''e'')]])) = 1 \<and>
   map fst (page_entries dec_int (response [[(''9'', ''c'')], [(''8'', ''d'')]])) = [9, 8] \<and>
   fetch_logs serve_script dec_int (Suc (Suc (Suc 0))) (new_fetcher list_t 2)
       \<lparr>sent = [],
        service = [Inr (response [[(''5'', ''a''), (''7'', ''b'')]]),
                   Inr (response [[(''9'', ''c'')], [(''8'', ''d'')]]),
                   Inr (response [[(''11'', ''e'')]])]\<rparr> ''q'' 0 True forward =
     Some (Inr (),
           (new_fetcher list_t 2)
             \<lparr>priv_logs := LogList [(5, JStr ''a''), (7, JStr ''b''), (9, JStr ''c''),
                                   (8, JStr ''d''), (11, JStr ''e'')]\<rparr>,
           \<lparr>sent = [request_of (new_fetcher list_t 2) ''q'' 0 forward,
                    request_of (new_fetcher list_t 2) ''q'' 8 forward,
                    request_of (new_fetcher list_t 2) ''q'' 10 forward],
            service = []\<rparr>) \<and>
   fetch_logs serve_script dec_int (Suc 0) (new_fetcher list_t 2)
       \<lparr>sent = [], service = [Inr (response [[(''5'', ''a''), (''7'', ''b'')]])]\<rparr>
       ''q'' 0 False backward =
     Some (Inr (),
           (new_fetcher list_t 2)\<lparr>priv_logs := LogList [(5, JStr ''a''), (7, JStr ''b'')]\<rparr>,
           \<lparr>sent = [request_of (new_fetcher list_t 2) ''q'' 0 backward], service = []\<rparr>)"
proof -
  let ?F = "new_fetcher list_t 2"
  let ?p1 = "response [[(''5'', ''a''), (''7'', ''b'')]]"
  let ?p2 = "response [[(''9'', ''c'')], [(''8'', ''d'')]]"
  let ?p3 = "response [[(''11'', ''e'')]]"
  have h1: "query_limit ?F = 2" by (simp add: new_fetcher_def)
  have h2: "page_ok dec_int ?F ?p1" by (simp add: page_ok_run run_defs)
  have h3: "length (page_values ?p1) = 2" by (simp add: response_values)
  have h4: "page_ok dec_int ?F ?p2" by (simp add: page_ok_run run_defs)
  have h5: "length (page_values ?p2) = 2" by (simp add: response_values)
  have h6: "page_ok dec_int ?F ?p3" by (simp add: page_ok_run run_defs)
  have h7: "length (page_values ?p3) = 1" by (simp add: response_values)
  have e1: "page_entries dec_int ?p1 = [(5, JStr ''a''), (7, JStr ''b'')]"
    by (simp add: run_defs)
  have e2: "page_entries dec_int ?p2 = [(9, JStr ''c''), (8, JStr ''d'')]"
    by (simp add: run_defs)
  have e3: "page_entries dec_int ?p3 = [(11, JStr ''e'')]"
    by (simp add: run_defs)
  have k1: "page_peak dec_int ?p1 = 7" by (simp add: page_peak_def e1)
  have s: "serve_script (service \<lparr>sent = [], service = [Inr ?p1]\<rparr>)
      (request_of ?F ''q'' 0 backward) = (Inr ?p1, [])"
    by simp
  from fetch_logs_three_pages
    [where fuel = 0 and rest = "[]" and q = "''q''" and st = 0 and dir = forward
       and ?serve2.0 = serve_script and ?w2.0 = "\<lparr>sent = [], service = [Inr ?p1]\<rparr>"
       and ?self2.0 = ?F and ?q2.0 = "''q''" and ?st2.0 = 0 and ?dir2.0 = backward
       and p = ?p1 and ?s2.0 = "[]" and fetch_all = False and n = 0,
     OF h1 h2 h3 h4 h5 h6 h7]
  show ?thesis
    using h1 h2 h3 h4 h5 h6 h7 s
    by (simp add: e1 e2 e3 k1 new_fetcher_def)
qed

section \<open>A session of several pages\<close>

lemma fetch_logs_reset:
  "fetch_logs serve int_str n (self\<lparr>priv_result := r\<rparr>) w q st fetch_all dir =
     fetch_logs serve int_str n self w q st fetch_all dir"
  by (cases n) simp_all

lemma fetch_logs_full_pages:
  assumes "\<forall>p \<in> set pages. page_ok int_str self p \<and> int (length (page_values p)) = query_limit self"
    and "fetch_all \<or> pages = []"
  shows "\<exists>reqs st' fa' dir'. length reqs = length pages \<and>
           (\<forall>n. fetch_logs serve_script int_str (length pages + n) self
                   \<lparr>sent = sent0, service = map Inr pages @ rest\<rparr> q st fetch_all dir =
                 fetch_logs serve_script int_str n
                   (self\<lparr>priv_result := None,
                         priv_logs := insert_all (priv_logs self) (pages_entries int_str pages)\<rparr>)
                   \<lparr>sent = sent0 @ reqs, service = rest\<rparr> q st' fa' dir')"
  using assms
proof (induction pages arbitrary: self sent0 st fetch_all dir)
  case Nil
  have "self\<lparr>priv_result := None, priv_logs := priv_logs self\<rparr> = self\<lparr>priv_result := None\<rparr>"
    by simp
  then have "\<forall>n. fetch_logs serve_script int_str (length ([] :: json list) + n) self
                   \<lparr>sent = sent0, service = map Inr [] @ rest\<rparr> q st fetch_all dir =
                 fetch_logs serve_script int_str n
                   (self\<lparr>priv_result := None,
                         priv_logs := insert_all (priv_logs self) (pages_entries int_str [])\<rparr>)
                   \<lparr>sent = sent0 @ [], service = rest\<rparr> q st fetch_all dir"
    by (simp add: pages_entries_def fetch_logs_reset)
  then show ?case by (metis length_0_conv list.size(3))
next
  case (Cons p ps)
  let ?w0 = "\<lparr>sent = sent0, service = map Inr (p # ps) @ rest\<rparr>"
  let ?self1 = "self\<lparr>priv_result := None,
                    priv_logs := insert_all (priv_logs self) (page_entries int_str p)\<rparr>"
  let ?st1 = "page_peak int_str p + next_chunk_step_ns self"
  have fa: "fetch_all" using Cons.prems(2) by simp
  have ok: "page_ok int_str self p" and len: "int (length (page_values p)) = query_limit self"
    using Cons.prems(1) by simp_all
  have s: "serve_script (service ?w0) (request_of self q st dir) = (Inr p, map Inr ps @ rest)"
    by simp
  have step: "fetch_logs serve_script int_str (Suc m) self ?w0 q st True dir =
      fetch_logs serve_script int_str m ?self1
        \<lparr>sent = sent0 @ [request_of self q st dir], service = map Inr ps @ rest\<rparr> q ?st1 True forward"
    for m
    using fetch_logs_page_continue [where serve = serve_script and w = ?w0 and fuel = m, OF s ok len]
    by simp
  have full1: "\<forall>p' \<in> set ps. page_ok int_str ?self1 p' \<and>
      int (length (page_values p')) = query_limit ?self1"
    using Cons.prems(1) by simp
  from Cons.IH [OF full1, of True "sent0 @ [request_of self q st dir]" ?st1 forward]
  obtain reqs st' fa' dir' where r: "length reqs = length ps"
    and run: "\<forall>n. fetch_logs serve_script int_str (length ps + n) ?self1
                   \<lparr>sent = (sent0 @ [request_of self q st dir]), service = map Inr ps @ rest\<rparr>
                   q ?st1 True forward =
                 fetch_logs serve_script int_str n
                   (?self1\<lparr>priv_result := None,
                         priv_logs := insert_all (priv_logs ?self1) (pages_entries int_str ps)\<rparr>)
                   \<lparr>sent = (sent0 @ [request_of self q st dir]) @ reqs, service = rest\<rparr>
                   q st' fa' dir'"
    by auto
  have self2: "?self1\<lparr>priv_result := None,
        priv_logs := insert_all (priv_logs ?self1) (pages_entries int_str ps)\<rparr> =
      self\<lparr>priv_result := None,
           priv_logs := insert_all (priv_logs self) (pages_entries int_str (p # ps))\<rparr>"
    by (simp add: pages_entries_def insert_all_append)
  have "\<forall>n. fetch_logs serve_script int_str (length (p # ps) + n) self ?w0 q st fetch_all dir =
      fetch_logs serve_script int_str n
        (self\<lparr>priv_result := None,
              priv_logs := insert_all (priv_logs self) (pages_entries int_str (p # ps))\<rparr>)
        \<lparr>sent = sent0 @ (request_of self q st dir # reqs), service = rest\<rparr> q st' fa' dir'"
  proof
    fix n
    have "fetch_logs serve_script int_str (length (p # ps) + n) self ?w0 q st fetch_all dir =
        fetch_logs serve_script int_str (Suc (length ps + n)) self ?w0 q st True dir"
      using fa by simp
    also have "\<dots> = fetch_logs serve_script int_str (length ps + n) ?self1
        \<lparr>sent = sent0 @ [request_of self q st dir], service = map Inr ps @ rest\<rparr> q ?st1 True forward"
      by (rule step)
    also have "\<dots> = fetch_logs serve_script int_str n
        (?self1\<lparr>priv_result := None,
              priv_logs := insert_all (priv_logs ?self1) (pages_entries int_str ps)\<rparr>)
        \<lparr>sent = (sent0 @ [request_of self q st dir]) @ reqs, service = rest\<rparr> q st' fa' dir'"
      using run by blast
    finally show "fetch_logs serve_script int_str (length (p # ps) + n) self ?w0 q st fetch_all dir =
      fetch_logs serve_script int_str n
        (self\<lparr>priv_result := None,
              priv_logs := insert_all (priv_logs self) (pages_entries int_str (p # ps))\<rparr>)
        \<lparr>sent = sent0 @ (request_of self q st dir # reqs), service = rest\<rparr> q st' fa' dir'"
      using self2 by simp
  qed
  moreover have "length (request_of self q st dir # reqs) = length (p # ps)"
    using r by simp
  ultimately show ?case by blast
qed

lemma fetch_logs_store_le:
  "fetch_logs serve int_str n self w q st fetch_all dir = Some (res, self', w') \<Longrightarrow>
     store_le (priv_logs self) (priv_logs self') \<and> prefix (sent w) (sent w')"
proof (induction n arbitrary: self w st fetch_all dir)
  case 0
  then show ?case by simp
next
  case (Suc n)
  let ?self1 = "self\<lparr>priv_result := None\<rparr>"
  obtain resp s1 where sv: "serve (service w) (request_of self q st dir) = (resp, s1)"
    by (cases "serve (service w) (request_of self q st dir)")
  let ?w1 = "\<lparr>sent = sent w @ [request_of self q st dir], service = s1\<rparr>"
  show ?case
  proof (cases resp)
    case (Inl e)
    then have "fetch_logs serve int_str (Suc n) self w q st fetch_all dir = Some (Inl e, ?self1, ?w1)"
      using fetch_logs_transport_error [where serve = serve and w = w] sv by simp
    then show ?thesis using Suc.prems by auto
  next
    case (Inr p)
    obtain r self2 where u: "unpack_response int_str ?self1 p = (r, self2)"
      by (cases "unpack_response int_str ?self1 p")
    from unpack_response_fields [OF u] have le: "store_le (priv_logs self) (priv_logs self2)"
      by auto
    show ?thesis
    proof (cases r)
      case e: (Inl e)
      have "fetch_logs serve int_str (Suc n) self w q st fetch_all dir = Some (Inl e, self2, ?w1)"
        using fetch_logs_unpack_error [where serve = serve and w = w] sv Inr u e by simp
      then show ?thesis using Suc.prems le by auto
    next
      case lp: (Inr lp)
      obtain len pk where lpe: "lp = (len, pk)" by (cases lp)
      show ?thesis
      proof (cases "fetch_all \<and> int len = query_limit self")
        case True
        then have "fetch_logs serve int_str (Suc n) self w q st fetch_all dir =
            fetch_logs serve int_str n self2 ?w1 q (pk + next_chunk_step_ns self) True forward"
          using fetch_logs_continue [where serve = serve and w = w and fuel = n] sv Inr u lp lpe
          by simp
        then have "fetch_logs serve int_str n self2 ?w1 q (pk + next_chunk_step_ns self) True forward =
            Some (res, self', w')"
          using Suc.prems by simp
        from Suc.IH [OF this] le show ?thesis
          by (auto intro: store_le_trans dest: append_prefixD)
      next
        case False
        then have "fetch_logs serve int_str (Suc n) self w q st fetch_all dir =
            Some (Inr (), self2, ?w1)"
          using fetch_logs_stop [where serve = serve and w = w and fuel = n] sv Inr u lp lpe
          by simp
        then show ?thesis using Suc.prems le by auto
      qed
    qed
  qed
qed

lemma fetch_logs_session_failure:
  assumes "\<forall>p \<in> set pages. page_ok int_str self p \<and> int (length (page_values p)) = query_limit self"
    and "fetch_all \<or> pages = []"
    and "answer = Inl e \<or>
         (\<exists>r. answer = Inr r \<and>
            fst (unpack_response int_str
                  (self\<lparr>priv_result := None,
                        priv_logs := insert_all (priv_logs self) (pages_entries int_str pages)\<rparr>)
                  r) = Inl e)"
  shows "(\<exists>self' reqs.
            fetch_logs serve_script int_str (Suc (length pages + n)) self
                \<lparr>sent = sent0, service = map Inr pages @ answer # rest\<rparr> q st fetch_all dir =
              Some (Inl e, self', \<lparr>sent = sent0 @ reqs, service = rest\<rparr>) \<and>
            length reqs = Suc (length pages) \<and>
            store_le (insert_all (priv_logs self) (pages_entries int_str pages)) (priv_logs self') \<and>
            (answer = Inl e \<longrightarrow>
               priv_logs self' = insert_all (priv_logs self) (pages_entries int_str pages))) \<and>
         (fetch_logs serve2 int_str m self2 w2 q2 st2 fa2 dir2 = Some (res, self3, w3) \<longrightarrow>
            store_le (priv_logs self2) (priv_logs self3))"
proof -
  let ?acc = "insert_all (priv_logs self) (pages_entries int_str pages)"
  let ?S = "self\<lparr>priv_result := None, priv_logs := ?acc\<rparr>"
  from fetch_logs_full_pages [OF assms(1,2), of sent0 "answer # rest" q st dir]
  obtain reqs st' fa' dir' where len: "length reqs = length pages"
    and run: "\<forall>k. fetch_logs serve_script int_str (length pages + k) self
                   \<lparr>sent = sent0, service = map Inr pages @ answer # rest\<rparr> q st fetch_all dir =
                 fetch_logs serve_script int_str k ?S
                   \<lparr>sent = sent0 @ reqs, service = answer # rest\<rparr> q st' fa' dir'"
    by blast
  let ?w = "\<lparr>sent = sent0 @ reqs, service = answer # rest\<rparr>"
  let ?rq = "request_of ?S q st' dir'"
  have eq: "fetch_logs serve_script int_str (Suc (length pages + n)) self
      \<lparr>sent = sent0, service = map Inr pages @ answer # rest\<rparr> q st fetch_all dir =
      fetch_logs serve_script int_str (Suc n) ?S ?w q st' fa' dir'"
    using run [rule_format, of "Suc n"] by simp
  have sv: "serve_script (service ?w) ?rq = (answer, rest)"
    by simp
  have S: "?S\<lparr>priv_result := None\<rparr> = ?S" by simp
  have "\<exists>self'. fetch_logs serve_script int_str (Suc n) ?S ?w q st' fa' dir' =
          Some (Inl e, self', \<lparr>sent = sent0 @ (reqs @ [?rq]), service = rest\<rparr>) \<and>
        store_le ?acc (priv_logs self') \<and> (answer = Inl e \<longrightarrow> priv_logs self' = ?acc)"
  proof (cases answer)
    case (Inl e')
    have e': "e' = e" using assms(3) Inl by auto
    have "fetch_logs serve_script int_str (Suc n) ?S ?w q st' fa' dir' =
        Some (Inl e, ?S\<lparr>priv_result := None\<rparr>,
              \<lparr>sent = sent ?w @ [?rq], service = rest\<rparr>)"
      using sv Inl e'
      by (intro fetch_logs_transport_error [where serve = serve_script and w = ?w]) simp
    then show ?thesis by simp
  next
    case (Inr r)
    then have "fst (unpack_response int_str ?S r) = Inl e" using assms(3) by auto
    then obtain self' where u: "unpack_response int_str (?S\<lparr>priv_result := None\<rparr>) r = (Inl e, self')"
      unfolding S by (cases "unpack_response int_str ?S r") auto
    have le: "store_le ?acc (priv_logs self')"
      using unpack_response_fields [OF u] by auto
    have "fetch_logs serve_script int_str (Suc n) ?S ?w q st' fa' dir' =
        Some (Inl e, self', \<lparr>sent = sent ?w @ [?rq], service = rest\<rparr>)"
      using sv Inr
      by (intro fetch_logs_unpack_error [where serve = serve_script and w = ?w and response_data = r, OF _ u])
        simp
    then show ?thesis using le Inr by simp
  qed
  then obtain self' where
    r: "fetch_logs serve_script int_str (Suc n) ?S ?w q st' fa' dir' =
          Some (Inl e, self', \<lparr>sent = sent0 @ (reqs @ [?rq]), service = rest\<rparr>)"
    and le: "store_le ?acc (priv_logs self')"
    and ex: "answer = Inl e \<longrightarrow> priv_logs self' = ?acc"
    by blast
  have "length (reqs @ [?rq]) = Suc (length pages)" using len by simp
  with r le ex eq have first: "\<exists>self' reqs.
            fetch_logs serve_script int_str (Suc (length pages + n)) self
                \<lparr>sent = sent0, service = map Inr pages @ answer # rest\<rparr> q st fetch_all dir =
              Some (Inl e, self', \<lparr>sent = sent0 @ reqs, service = rest\<rparr>) \<and>
            length reqs = Suc (length pages) \<and>
            store_le ?acc (priv_logs self') \<and>
            (answer = Inl e \<longrightarrow> priv_logs self' = ?acc)"
    by (intro exI [of _ self'] exI [of _ "reqs @ [?rq]"]) simp
  have second: "fetch_logs serve2 int_str m self2 w2 q2 st2 fa2 dir2 = Some (res, self3, w3) \<longrightarrow>
      store_le (priv_logs self2) (priv_logs self3)"
    using fetch_logs_store_le [of serve2 int_str m self2 w2 q2 st2 fa2 dir2 res self3 w3] by blast
  from first second show ?thesis by blast
qed

text \<open>
  Claim C7 as stated fails for a failure of HTTP that is only a status: the service
  answers with status 500 and a body of the expected shape, and \<^verbatim>\<open>fetch_logs\<close>
  returns without an exception, having taken the body as a page.
\<close>

theorem fetch_logs_http_status_counterexample:
  "fetch_logs (get_json http_script) dec_int (Suc 0) (new_fetcher list_t 5000)
       \<lparr>sent = [],
        service = [Inr \<lparr>status_code = 500, body_json = Inr (response [[(''5'', ''a'')]])\<rparr>]\<rparr>
       ''q'' 0 True forward =
     Some (Inr (),
           (new_fetcher list_t 5000)\<lparr>priv_logs := LogList [(5, JStr ''a'')]\<rparr>,
           \<lparr>sent = [request_of (new_fetcher list_t 5000) ''q'' 0 forward], service = []\<rparr>)"
  by (simp add: run_defs get_json_def)

text \<open>
  Claim C7, as amended. \<^verbatim>\<open>fetch_logs\<close> does not read the status of a response: an
  answer is a failure when \<^verbatim>\<open>requests.get\<close> raises, when \<^verbatim>\<open>resp.json()\<close> raises,
  or when \<^verbatim>\<open>_unpack_response\<close> raises on the decoded body, and a response whose
  body unpacks is taken as a page whatever its status. In a session in which the
  service answers any number of full pages that unpack and then fails,
  \<^verbatim>\<open>fetch_logs\<close> returns that exception to its caller. It has then sent one request
  per page and one for the failed answer, and none after it: the request is not
  repeated and the rest of the answers are not asked for. The collection still holds
  every entry of the pages before the failure, and is exactly that when the failure is
  of the transport or the decoder. In general, however a fetch ends, the collection it
  started with is kept.
\<close>

theorem fetch_logs_error_propagates:
  assumes "\<forall>p \<in> set pages. page_ok int_str self p \<and> int (length (page_values p)) = query_limit self"
    and "fetch_all \<or> pages = []"
    and "answer = Inl e \<or>
         (\<exists>r. answer = Inr r \<and>
            fst (unpack_response int_str
                  (self\<lparr>priv_result := None,
                        priv_logs := insert_all (priv_logs self) (pages_entries int_str pages)\<rparr>)
                  r) = Inl e)"
  shows "(\<exists>self' reqs.
            fetch_logs serve_script int_str (Suc (length pages + n)) self
                \<lparr>sent = sent0, service = map Inr pages @ answer # rest\<rparr> q st fetch_all dir =
              Some (Inl e, self', \<lparr>sent = sent0 @ reqs, service = rest\<rparr>) \<and>
            length reqs = Suc (length pages) \<and>
            store_le (insert_all (priv_logs self) (pages_entries int_str pages)) (priv_logs self') \<and>
            (answer = Inl e \<longrightarrow>
               priv_logs self' = insert_all (priv_logs self) (pages_entries int_str pages))) \<and>
         (fetch_logs serve2 int_str m self2 w2 q2 st2 fa2 dir2 = Some (res, self3, w3) \<longrightarrow>
            store_le (priv_logs self2) (priv_logs self3)) \<and>
         (http (service w4) (request_of self4 q4 st4 dir4) = (a4, s4) \<and>
          (a4 = Inl e4 \<or> (\<exists>resp. a4 = Inr resp \<and> body_json resp = Inl e4)) \<longrightarrow>
            fetch_logs (get_json http) int_str (Suc k) self4 w4 q4 st4 fa4 dir4 =
              Some (Inl e4, self4\<lparr>priv_result := None\<rparr>,
                    \<lparr>sent = sent w4 @ [request_of self4 q4 st4 dir4], service = s4\<rparr>)) \<and>
         (http (service w4) (request_of self4 q4 st4 dir4) = (Inr resp4, s4) \<and>
          body_json resp4 = Inr p4 \<and> page_ok int_str self4 p4 \<and>
          (\<not> fa4 \<or> int (length (page_values p4)) \<noteq> query_limit self4) \<longrightarrow>
            fetch_logs (get_json http) int_str (Suc k) self4 w4 q4 st4 fa4 dir4 =
              Some (Inr (),
                    self4\<lparr>priv_result := None,
                          priv_logs := insert_all (priv_logs self4) (page_entries int_str p4)\<rparr>,
                    \<lparr>sent = sent w4 @ [request_of self4 q4 st4 dir4], service = s4\<rparr>))"
proof -
  note session = fetch_logs_session_failure [OF assms, of n sent0 rest q st dir
      serve2 m self2 w2 q2 st2 fa2 dir2 res self3 w3]
  let ?rq = "request_of self4 q4 st4 dir4"
  have err: "fetch_logs (get_json http) int_str (Suc k) self4 w4 q4 st4 fa4 dir4 =
              Some (Inl e4, self4\<lparr>priv_result := None\<rparr>,
                    \<lparr>sent = sent w4 @ [?rq], service = s4\<rparr>)"
    if h: "http (service w4) ?rq = (a4, s4)"
      "a4 = Inl e4 \<or> (\<exists>resp. a4 = Inr resp \<and> body_json resp = Inl e4)"
  proof -
    have "get_json http (service w4) ?rq = (Inl e4, s4)"
      using h by (auto simp: get_json_def)
    then show ?thesis
      by (rule fetch_logs_transport_error [where serve = "get_json http" and w = w4])
  qed
  have page: "fetch_logs (get_json http) int_str (Suc k) self4 w4 q4 st4 fa4 dir4 =
              Some (Inr (),
                    self4\<lparr>priv_result := None,
                          priv_logs := insert_all (priv_logs self4) (page_entries int_str p4)\<rparr>,
                    \<lparr>sent = sent w4 @ [?rq], service = s4\<rparr>)"
    if h: "http (service w4) ?rq = (Inr resp4, s4)" "body_json resp4 = Inr p4"
      "page_ok int_str self4 p4"
      "\<not> fa4 \<or> int (length (page_values p4)) \<noteq> query_limit self4"
  proof -
    have g: "get_json http (service w4) ?rq = (Inr p4, s4)"
      using h(1,2) by (simp add: get_json_def)
    show ?thesis
      by (rule fetch_logs_page_stop [where serve = "get_json http" and w = w4, OF g h(3,4)])
  qed
  from session err page show ?thesis by blast
qed

theorem fetch_logs_error_propagates_witness:
  "page_ok dec_int (new_fetcher list_t 1) (response [[(''5'', ''a'')]]) \<and>
   int (length (page_values (response [[(''5'', ''a'')]]))) = query_limit (new_fetcher list_t 1) \<and>
   fst (unpack_response dec_int
          ((new_fetcher list_t 1)
             \<lparr>priv_result := None,
              priv_logs := insert_all (priv_logs (new_fetcher list_t 1))
                (pages_entries dec_int [response [[(''5'', ''a'')]]])\<rparr>)
          (JObj [(''status'', JStr ''error'')])) = Inl KeyError \<and>
   fetch_logs serve_script dec_int (Suc (Suc 0)) (new_fetcher list_t 1)
       \<lparr>sent = [],
        service = [Inr (response [[(''5'', ''a'')]]), Inr (JObj [(''status'', JStr ''error'')]),
                   Inr (response [[(''7'', ''c'')]])]\<rparr> ''q'' 0 True forward =
     Some (Inl KeyError,
           (new_fetcher list_t 1)\<lparr>priv_logs := LogList [(5, JStr ''a'')]\<rparr>,
           \<lparr>sent = [request_of (new_fetcher list_t 1) ''q'' 0 forward,
                    request_of (new_fetcher list_t 1) ''q'' 6 forward],
            service = [Inr (response [[(''7'', ''c'')]])]\<rparr>) \<and>
   store_le (priv_logs (new_fetcher list_t 1)) (LogList [(5, JStr ''a'')]) \<and>
   fetch_logs (get_json http_script) dec_int (Suc 0) (new_fetcher list_t 1)
       \<lparr>sent = [],
        service = [Inr \<lparr>status_code = 502, body_json = Inl JSONDecodeError\<rparr>,
                   Inr \<lparr>status_code = 200, body_json = Inr (response [[(''7'', ''c'')]])\<rparr>]\<rparr>
       ''q'' 0 True forward =
     Some (Inl JSONDecodeError, new_fetcher list_t 1,
           \<lparr>sent = [request_of (new_fetcher list_t 1) ''q'' 0 forward],
            service = [Inr \<lparr>status_code = 200, body_json = Inr (response [[(''7'', ''c'')]])\<rparr>]\<rparr>) \<and>
   fetch_logs (get_json http_script) dec_int (Suc 0) (new_fetcher list_t 5000)
       \<lparr>sent = [],
        service = [Inr \<lparr>status_code = 500, body_json = Inr (response [[(''5'', ''a'')]])\<rparr>]\<rparr>
       ''q'' 0 True forward =
     Some (Inr (),
           (new_fetcher list_t 5000)\<lparr>priv_logs := LogList [(5, JStr ''a'')]\<rparr>,
           \<lparr>sent = [request_of (new_fetcher list_t 5000) ''q'' 0 forward], service = []\<rparr>)"
proof -
  let ?F = "new_fetcher list_t 1"
  let ?G = "new_fetcher list_t 5000"
  let ?p = "response [[(''5'', ''a'')]]"
  let ?bad = "JObj [(''status'', JStr ''error'')]"
  let ?r502 = "\<lparr>status_code = 502, body_json = Inl JSONDecodeError\<rparr>"
  let ?r200 = "\<lparr>status_code = 200, body_json = Inr (response [[(''7'', ''c'')]])\<rparr>"
  let ?r500 = "\<lparr>status_code = 500, body_json = Inr ?p\<rparr>"
  have ok: "page_ok dec_int ?F ?p" by (simp add: page_ok_run run_defs)
  have okG: "page_ok dec_int ?G ?p" by (simp add: page_ok_run run_defs)
  have len: "int (length (page_values ?p)) = query_limit ?F"
    by (simp add: response_values new_fetcher_def)
  have h1: "\<forall>p \<in> set [?p]. page_ok dec_int ?F p \<and> int (length (page_values p)) = query_limit ?F"
    using ok len by simp
  have h2: "True \<or> [?p] = []" by simp
  have u: "fst (unpack_response dec_int
          (?F\<lparr>priv_result := None,
              priv_logs := insert_all (priv_logs ?F) (pages_entries dec_int [?p])\<rparr>) ?bad) =
      Inl KeyError"
    by (simp add: unpack_response_def)
  have h3: "Inr ?bad = Inl KeyError \<or>
      (\<exists>r. Inr ?bad = Inr r \<and>
         fst (unpack_response dec_int
               (?F\<lparr>priv_result := None,
                   priv_logs := insert_all (priv_logs ?F) (pages_entries dec_int [?p])\<rparr>) r) =
         Inl KeyError)"
    using u by simp
  have run: "fetch_logs serve_script dec_int (Suc (Suc 0)) ?F
       \<lparr>sent = [], service = [Inr ?p, Inr ?bad, Inr (response [[(''7'', ''c'')]])]\<rparr>
       ''q'' 0 True forward =
     Some (Inl KeyError, ?F\<lparr>priv_logs := LogList [(5, JStr ''a'')]\<rparr>,
           \<lparr>sent = [request_of ?F ''q'' 0 forward, request_of ?F ''q'' 6 forward],
            service = [Inr (response [[(''7'', ''c'')]])]\<rparr>)"
    by (simp add: run_defs)
  have le: "store_le (priv_logs ?F) (LogList [(5, JStr ''a'')])"
    using fetch_logs_error_propagates
    [where pages = "[?p]" and self = ?F and int_str = dec_int and fetch_all = True
       and answer = "Inr ?bad" and e = KeyError
       and ?serve2.0 = serve_script
        and m = "Suc (Suc 0)" and ?self2.0 = ?F
        and ?w2.0 = "\<lparr>sent = [], service = [Inr ?p, Inr ?bad, Inr (response [[(''7'', ''c'')]])]\<rparr>"
        and ?q2.0 = "''q''" and ?st2.0 = 0 and ?fa2.0 = True and ?dir2.0 = forward
        and res = "Inl KeyError" and ?self3.0 = "?F\<lparr>priv_logs := LogList [(5, JStr ''a'')]\<rparr>"
        and ?w3.0 = "\<lparr>sent = [request_of ?F ''q'' 0 forward, request_of ?F ''q'' 6 forward],
            service = [Inr (response [[(''7'', ''c'')]])]\<rparr>",
       OF h1 h2 h3, THEN conjunct2, THEN conjunct1]
      run
    by simp
  have a: "http_script (service \<lparr>sent = [], service = [Inr ?r502, Inr ?r200]\<rparr>)
      (request_of ?F ''q'' 0 forward) = (Inr ?r502, [Inr ?r200])"
    by simp
  have e502: "fetch_logs (get_json http_script) dec_int (Suc 0) ?F
       \<lparr>sent = [], service = [Inr ?r502, Inr ?r200]\<rparr> ''q'' 0 True forward =
     Some (Inl JSONDecodeError, ?F,
           \<lparr>sent = [request_of ?F ''q'' 0 forward], service = [Inr ?r200]\<rparr>)"
    using fetch_logs_error_propagates
    [where pages = "[?p]" and self = ?F and int_str = dec_int and fetch_all = True
       and answer = "Inr ?bad" and e = KeyError
       and http = http_script
        and ?w4.0 = "\<lparr>sent = [], service = [Inr ?r502, Inr ?r200]\<rparr>" and ?self4.0 = ?F
        and ?q4.0 = "''q''" and ?st4.0 = 0 and ?dir4.0 = forward and ?a4.0 = "Inr ?r502"
        and ?s4.0 = "[Inr ?r200]" and ?e4.0 = JSONDecodeError and k = 0 and ?fa4.0 = True,
       OF h1 h2 h3, THEN conjunct2, THEN conjunct2, THEN conjunct1]
      a
    by (simp add: new_fetcher_def)
  have b: "http_script (service \<lparr>sent = [], service = [Inr ?r500]\<rparr>)
      (request_of ?G ''q'' 0 forward) = (Inr ?r500, [])"
    by simp
  have e500: "fetch_logs (get_json http_script) dec_int (Suc 0) ?G
       \<lparr>sent = [], service = [Inr ?r500]\<rparr> ''q'' 0 True forward =
     Some (Inr (), ?G\<lparr>priv_logs := LogList [(5, JStr ''a'')]\<rparr>,
           \<lparr>sent = [request_of ?G ''q'' 0 forward], service = []\<rparr>)"
    using fetch_logs_error_propagates
    [where pages = "[?p]" and self = ?F and int_str = dec_int and fetch_all = True
       and answer = "Inr ?bad" and e = KeyError
       and http = http_script
        and ?w4.0 = "\<lparr>sent = [], service = [Inr ?r500]\<rparr>" and ?self4.0 = ?G
        and ?q4.0 = "''q''" and ?st4.0 = 0 and ?dir4.0 = forward and ?resp4.0 = ?r500
        and ?s4.0 = "[]" and ?p4.0 = ?p and k = 0 and ?fa4.0 = True,
       OF h1 h2 h3, THEN conjunct2, THEN conjunct2, THEN conjunct2]
      b okG
    by (simp add: new_fetcher_def run_defs)
  from ok len u run le e502 e500 show ?thesis by blast
qed


section \<open>The URL of the fetcher\<close>





text \<open>
  Claim C10. \<^verbatim>\<open>from_project\<close> gives the same result whatever \<^verbatim>\<open>url\<close> keyword
  argument it is called with. The instance it returns has the URL derived from the
  secrets of the project, the secret \<^verbatim>\<open>loki_host\<close> followed by
  \<^verbatim>\<open>/loki/api/v1/query_range\<close>, so its URL is not a caller-supplied one that
  differs from the derived one.
\<close>

theorem from_project_discards_url:
  "from_project get_all_secrets project (kw\<lparr>kw_url := u\<rparr>) =
     from_project get_all_secrets project kw \<and>
   (from_project get_all_secrets project kw = Inr self \<longrightarrow>
      (\<exists>secrets h. get_all_secrets (Some project) = Inr secrets \<and>
         secrets ''loki_host'' = Some h \<and>
         url self = h @ ''/loki/api/v1/query_range'' \<and>
         (\<forall>u'. kw_url kw = Some u' \<and> u' \<noteq> h @ ''/loki/api/v1/query_range'' \<longrightarrow> url self \<noteq> u')))"
proof -
  have a: "from_project get_all_secrets project (kw\<lparr>kw_url := u\<rparr>) =
      from_project get_all_secrets project kw"
    by (simp add: from_project_def)
  have b: "\<exists>secrets h. get_all_secrets (Some project) = Inr secrets \<and>
         secrets ''loki_host'' = Some h \<and>
         url self = h @ ''/loki/api/v1/query_range'' \<and>
         (\<forall>u'. kw_url kw = Some u' \<and> u' \<noteq> h @ ''/loki/api/v1/query_range'' \<longrightarrow> url self \<noteq> u')"
    if r: "from_project get_all_secrets project kw = Inr self"
  proof -
    from r have others: "kw_api_path kw = None" "kw_others kw = []"
      by (auto simp: from_project_def Let_def split: if_splits sum.splits)
    from r others obtain secrets where s: "get_all_secrets (Some project) = Inr secrets"
      by (cases "get_all_secrets (Some project)")
        (auto simp: from_project_def make_url_def Let_def split: if_splits)
    from r others s obtain h where h: "secrets ''loki_host'' = Some h"
      by (cases "secrets ''loki_host''")
        (auto simp: from_project_def make_url_def Let_def split: if_splits)
    have mk: "make_url get_all_secrets (Some project) default_api_path =
        Inr (h @ ''/loki/api/v1/query_range'')"
      using s h by (simp add: make_url_def default_api_path_def)
    have "url self = h @ ''/loki/api/v1/query_range''"
      using r others mk
      by (auto simp: from_project_def init_def Let_def split: if_splits)
    then show ?thesis using s h by auto
  qed
  from a b show ?thesis by blast
qed

theorem from_project_discards_url_witness:
  "from_project (\<lambda>p :: unit option. Inr [''loki_host'' \<mapsto> ''http://loki'']) ()
       \<lparr>kw_url = Some ''http://other/api'', kw_api_path = None, kw_date_format = None,
        kw_query_limit = Some 100, kw_next_chunk_step_ns = None,
        kw_data_parse_structure = Some dict_t, kw_others = []\<rparr> =
     Inr \<lparr>url = ''http://loki/loki/api/v1/query_range'', date_format = ''%Y-%m-%d %H:%M:%S'',
          query_limit = 100, next_chunk_step_ns = 1, data_parse_structure = dict_t,
          priv_logs = LogDict [], priv_result = None\<rparr> \<and>
   ''http://loki/loki/api/v1/query_range'' \<noteq> ''http://other/api''"
proof -
  let ?gas = "\<lambda>p :: unit option. Inr [''loki_host'' \<mapsto> ''http://loki''] :: error + (string \<rightharpoonup> string)"
  let ?kw = "\<lparr>kw_url = Some ''http://other/api'', kw_api_path = None, kw_date_format = None,
        kw_query_limit = Some 100, kw_next_chunk_step_ns = None,
        kw_data_parse_structure = Some dict_t, kw_others = []\<rparr>"
  let ?self = "\<lparr>url = ''http://loki/loki/api/v1/query_range'', date_format = ''%Y-%m-%d %H:%M:%S'',
          query_limit = 100, next_chunk_step_ns = 1, data_parse_structure = dict_t,
          priv_logs = LogDict [], priv_result = None\<rparr>"
  have r: "from_project ?gas () ?kw = Inr ?self"
    by (simp add: from_project_def make_url_def init_def default_api_path_def)
  from from_project_discards_url [where get_all_secrets = ?gas and project = "()" and kw = ?kw
      and self = ?self and u = None]
  show ?thesis using r by simp
qed

section \<open>The view that \<^verbatim>\<open>logs\<close> computes\<close>

lemma formats_Nil [simp]: "formats strftime fmt [] []"
  by (simp add: formats_def)

lemma formats_append:
  "formats strftime fmt a v \<Longrightarrow> formats strftime fmt b u \<Longrightarrow> formats strftime fmt (a @ b) (v @ u)"
  by (simp add: formats_def list_all2_appendI)

lemma formats_length: "formats strftime fmt raw view \<Longrightarrow> length view = length raw"
  by (simp add: formats_def list_all2_lengthD)

lemma list_map_formats:
  "list_map (format_entry strftime fmt) xs = Inr view \<Longrightarrow> formats strftime fmt xs view"
proof (induction xs arbitrary: view)
  case Nil
  then show ?case by simp
next
  case (Cons x xs)
  from Cons.prems obtain y ys where y: "format_entry strftime fmt x = Inr y"
    and ys: "list_map (format_entry strftime fmt) xs = Inr ys" and v: "view = y # ys"
    by (auto split: sum.splits)
  from y have "strftime fmt (fst x) = Inr (fst y) \<and> snd y = snd x"
    by (auto simp: format_entry_def split: sum.splits)
  then show ?case using Cons.IH [OF ys] v by (simp add: formats_def)
qed

lemma formats_group: "strftime fmt t = Inr t' \<Longrightarrow>
    formats strftime fmt (map (Pair t) ms) (map (\<lambda>i. (t', i)) ms)"
  by (induction ms) (simp_all add: formats_def)

lemma items_raw_Nil [simp]: "items_raw set_iter [] = []"
  by (simp add: items_raw_def)

lemma items_raw_Cons [simp]:
  "items_raw set_iter ((t, v) # items) = map (Pair t) (set_iter v) @ items_raw set_iter items"
  by (simp add: items_raw_def)

lemma flatten_items_formats:
  "flatten_items strftime set_iter fmt items res = (r, res') \<Longrightarrow>
     \<exists>n v. res' = res @ v \<and> formats strftime fmt (take n (items_raw set_iter items)) v \<and>
       (\<forall>u. r = Inr u \<longrightarrow> formats strftime fmt (items_raw set_iter items) v)"
proof (induction items arbitrary: res)
  case Nil
  then have "res' = res @ [] \<and> formats strftime fmt (take 0 (items_raw set_iter [])) [] \<and>
      (\<forall>u. r = Inr u \<longrightarrow> formats strftime fmt (items_raw set_iter []) [])"
    by simp
  then show ?case by blast
next
  case (Cons a items)
  obtain t ms where a: "a = (t, ms)" by (cases a)
  show ?case
  proof (cases "strftime fmt t")
    case (Inl e)
    then have "res' = res @ [] \<and>
        formats strftime fmt (take 0 (items_raw set_iter (a # items))) [] \<and>
        (\<forall>u. r = Inr u \<longrightarrow> formats strftime fmt (items_raw set_iter (a # items)) [])"
      using Cons.prems a by auto
    then show ?thesis by blast
  next
    case (Inr t')
    let ?g = "map (Pair t) (set_iter ms)"
    let ?v = "map (\<lambda>i. (t', i)) (set_iter ms)"
    have g: "formats strftime fmt ?g ?v" using Inr by (rule formats_group)
    have "flatten_items strftime set_iter fmt items (res @ ?v) = (r, res')"
      using Cons.prems a Inr by simp
    from Cons.IH [OF this] obtain n v where
      v: "res' = (res @ ?v) @ v" "formats strftime fmt (take n (items_raw set_iter items)) v"
        "\<forall>u. r = Inr u \<longrightarrow> formats strftime fmt (items_raw set_iter items) v"
      by blast
    have "take (length ?g + n) (items_raw set_iter (a # items)) =
        ?g @ take n (items_raw set_iter items)"
      using a by simp
    then have "formats strftime fmt (take (length ?g + n) (items_raw set_iter (a # items))) (?v @ v)"
      using formats_append [OF g v(2)] by simp
    moreover have "\<forall>u. r = Inr u \<longrightarrow> formats strftime fmt (items_raw set_iter (a # items)) (?v @ v)"
      using formats_append [OF g] v(3) a by simp
    moreover have "res' = res @ (?v @ v)" using v(1) by simp
    ultimately show ?thesis by blast
  qed
qed

lemma sorted_items_raw:
  "sorted (map fst items) \<Longrightarrow> sorted (map fst (items_raw set_iter items))"
proof (induction items)
  case Nil
  then show ?case by simp
next
  case (Cons a items)
  obtain t ms where a: "a = (t, ms)" by (cases a)
  have keys: "fst ` set (items_raw set_iter items) \<subseteq> fst ` set items"
    by (auto simp: items_raw_def) force
  have "\<forall>k \<in> fst ` set items. t \<le> k" using Cons.prems a by auto
  then have "\<forall>k \<in> fst ` set (items_raw set_iter items). t \<le> k" using keys by blast
  moreover have "sorted (map fst (items_raw set_iter items))" using Cons by simp
  moreover have "map fst (map (Pair t) (set_iter ms)) = replicate (length (set_iter ms)) t"
    by (simp add: map_replicate_const comp_def)
  ultimately show ?case using a by (auto simp: sorted_append)
qed

lemma sorted_raw_view: "sorted (map fst (raw_view set_iter s))"
  by (cases s) (simp_all add: sorted_items_raw)

lemma sorted_take_raw_view: "sorted (map fst (take n (raw_view set_iter s)))"
  using sorted_raw_view [of set_iter s] by (simp add: take_map [symmetric] sorted_wrt_take)

lemma logs_view:
  assumes "cache_ok strftime set_iter self"
    and "logs strftime set_iter self = (res, self')"
  shows "cache_ok strftime set_iter self' \<and> priv_logs self' = priv_logs self \<and>
         date_format self' = date_format self \<and>
         (\<forall>view. res = Inr view \<longrightarrow>
            (\<exists>n. formats strftime (date_format self) (take n (raw_view set_iter (priv_logs self))) view) \<and>
            (priv_result self = None \<longrightarrow>
               formats strftime (date_format self) (raw_view set_iter (priv_logs self)) view))"
proof (cases "\<exists>r rs. priv_result self = Some (r # rs)")
  case True
  then obtain r rs where c: "priv_result self = Some (r # rs)" by blast
  then have "res = Inr (r # rs)" "self' = self"
    using assms(2) by (simp_all add: logs_def)
  then show ?thesis using assms(1) c by (auto simp: cache_ok_def)
next
  case False
  have fresh: "priv_result self = None \<or> priv_result self = Some []"
  proof (cases "priv_result self")
    case None
    then show ?thesis by simp
  next
    case (Some a)
    then show ?thesis using False by (cases a) auto
  qed
  have empty: "formats strftime (date_format self) (take 0 (raw_view set_iter (priv_logs self))) []"
    by simp
  show ?thesis
  proof (cases "priv_logs self")
    case (LogList xs)
    show ?thesis
    proof (cases "list_map (format_entry strftime (date_format self)) (sort_key fst xs)")
      case (Inl e)
      then have "res = Inl e" "self' = self"
        using assms(2) fresh LogList by (auto simp: logs_def)
      then show ?thesis using assms(1) by simp
    next
      case (Inr v)
      then have r: "res = Inr v" "self' = self\<lparr>priv_result := Some v\<rparr>"
        using assms(2) fresh LogList by (auto simp: logs_def)
      have f: "formats strftime (date_format self) (raw_view set_iter (priv_logs self)) v"
        using list_map_formats [OF Inr] LogList by simp
      then have "formats strftime (date_format self)
          (take (length (raw_view set_iter (priv_logs self))) (raw_view set_iter (priv_logs self))) v"
        by simp
      then have "\<exists>n. formats strftime (date_format self)
          (take n (raw_view set_iter (priv_logs self))) v"
        by blast
      then show ?thesis using r f by (simp add: cache_ok_def)
    qed
  next
    case (LogDict d)
    obtain r v where fl: "flatten_items strftime set_iter (date_format self) (sort_key fst d) [] = (r, v)"
      by (cases "flatten_items strftime set_iter (date_format self) (sort_key fst d) []")
    from flatten_items_formats [OF fl] obtain n where
      pre: "formats strftime (date_format self) (take n (raw_view set_iter (priv_logs self))) v"
      and whole: "\<forall>u. r = Inr u \<longrightarrow>
        formats strftime (date_format self) (raw_view set_iter (priv_logs self)) v"
      using LogDict by auto
    have self': "self' = self\<lparr>priv_result := Some v\<rparr>"
      using assms(2) fresh LogDict fl by (cases r) (auto simp: logs_def)
    have res: "res = (case r of Inl e \<Rightarrow> Inl e | Inr u \<Rightarrow> Inr v)"
      using assms(2) fresh LogDict fl by (cases r) (auto simp: logs_def)
    have c: "cache_ok strftime set_iter self'"
      using pre self' by (auto simp: cache_ok_def)
    have "\<forall>view. res = Inr view \<longrightarrow>
            (\<exists>n. formats strftime (date_format self) (take n (raw_view set_iter (priv_logs self))) view) \<and>
            (priv_result self = None \<longrightarrow>
               formats strftime (date_format self) (raw_view set_iter (priv_logs self)) view)"
      using res pre whole by (cases r) auto
    then show ?thesis using c self' by simp
  qed
qed

section \<open>Reachable states of the fetcher\<close>

lemma fetch_logs_preserves:
  assumes reset: "\<And>s. P s \<Longrightarrow> P (s\<lparr>priv_result := None\<rparr>)"
    and page: "\<And>s p r s'. P s \<Longrightarrow> priv_result s = None \<Longrightarrow>
                 unpack_response int_str s p = (r, s') \<Longrightarrow> P s'"
  shows "P self \<Longrightarrow> fetch_logs serve int_str n self w q st fetch_all dir = Some (res, self', w') \<Longrightarrow>
           P self' \<and> priv_result self' = None"
proof (induction n arbitrary: self w st fetch_all dir)
  case 0
  then show ?case by simp
next
  case (Suc n)
  let ?self1 = "self\<lparr>priv_result := None\<rparr>"
  let ?rq = "request_of self q st dir"
  have P1: "P ?self1" using Suc.prems(1) by (rule reset)
  obtain resp s1 where sv: "serve (service w) ?rq = (resp, s1)"
    by (cases "serve (service w) ?rq")
  let ?w1 = "\<lparr>sent = sent w @ [?rq], service = s1\<rparr>"
  show ?case
  proof (cases resp)
    case (Inl e)
    then have "fetch_logs serve int_str (Suc n) self w q st fetch_all dir = Some (Inl e, ?self1, ?w1)"
      using fetch_logs_transport_error [where serve = serve and w = w] sv by simp
    then show ?thesis using Suc.prems(2) P1 by auto
  next
    case (Inr p)
    obtain r self2 where u: "unpack_response int_str ?self1 p = (r, self2)"
      by (cases "unpack_response int_str ?self1 p")
    have P2: "P self2" using P1 u by (intro page [of ?self1 p r self2]) simp_all
    have n2: "priv_result self2 = None"
      using unpack_response_query_limit [OF u] by simp
    show ?thesis
    proof (cases r)
      case e: (Inl e)
      have "fetch_logs serve int_str (Suc n) self w q st fetch_all dir = Some (Inl e, self2, ?w1)"
        using fetch_logs_unpack_error [where serve = serve and w = w] sv Inr u e by simp
      then show ?thesis using Suc.prems(2) P2 n2 by auto
    next
      case lp: (Inr lp)
      obtain len pk where lpe: "lp = (len, pk)" by (cases lp)
      show ?thesis
      proof (cases "fetch_all \<and> int len = query_limit self")
        case True
        then have "fetch_logs serve int_str (Suc n) self w q st fetch_all dir =
            fetch_logs serve int_str n self2 ?w1 q (pk + next_chunk_step_ns self) True forward"
          using fetch_logs_continue [where serve = serve and w = w and fuel = n] sv Inr u lp lpe
          by simp
        then have "fetch_logs serve int_str n self2 ?w1 q (pk + next_chunk_step_ns self) True forward =
            Some (res, self', w')"
          using Suc.prems(2) by simp
        from Suc.IH [OF P2 this] show ?thesis .
      next
        case False
        then have "fetch_logs serve int_str (Suc n) self w q st fetch_all dir =
            Some (Inr (), self2, ?w1)"
          using fetch_logs_stop [where serve = serve and w = w and fuel = n] sv Inr u lp lpe
          by simp
        then show ?thesis using Suc.prems(2) P2 n2 by auto
      qed
    qed
  qed
qed

lemma store_ok_unpack_values:
  "store_ok s \<Longrightarrow> unpack_values int_str vs (len, pk, s) = (res, s') \<Longrightarrow> store_ok s'"
proof (induction vs arbitrary: len pk s)
  case Nil
  then show ?case by auto
next
  case (Cons v vs)
  show ?case
  proof (cases "decode_entry int_str v")
    case (Inl e)
    then have "s' = s" using Cons.prems(2)
      by (auto simp: decode_entry_def split: sum.splits prod.splits)
    then show ?thesis using Cons.prems(1) by simp
  next
    case (Inr tm)
    obtain t m where tm: "tm = (t, m)" by (cases tm)
    from Inr tm obtain a where a: "unpack_pair v = Inr (a, m)" "py_int int_str a = Inr t"
      by (auto simp: decode_entry_def split: sum.splits prod.splits)
    obtain r s1 where ins: "store_insert s t m = (r, s1)" by (cases "store_insert s t m")
    have ok1: "store_ok s1" using store_insert_ok_preserved [OF Cons.prems(1), of t m] ins by simp
    show ?thesis
    proof (cases r)
      case (Inl e)
      then have "s' = s1" using Cons.prems(2) a ins by simp
      then show ?thesis using ok1 by simp
    next
      case (Inr u)
      then have "unpack_values int_str vs (len + 1, max pk t, s1) = (res, s')"
        using Cons.prems(2) a ins by simp
      from Cons.IH [OF ok1 this] show ?thesis .
    qed
  qed
qed

lemma store_ok_unpack_groups:
  "store_ok s \<Longrightarrow> unpack_groups int_str gs (len, pk, s) = (res, s') \<Longrightarrow> store_ok s'"
proof (induction gs arbitrary: len pk s)
  case Nil
  then show ?case by auto
next
  case (Cons i gs)
  show ?case
  proof (cases "py_getitem i ''values''")
    case (Inl e)
    then show ?thesis using Cons.prems by auto
  next
    case vals: (Inr vals)
    show ?thesis
    proof (cases "py_iter vals")
      case (Inl e)
      then show ?thesis using Cons.prems vals by auto
    next
      case vs: (Inr vs)
      obtain r s1 where uv: "unpack_values int_str vs (len, pk, s) = (r, s1)"
        by (cases "unpack_values int_str vs (len, pk, s)")
      have ok1: "store_ok s1" using Cons.prems(1) uv by (rule store_ok_unpack_values)
      show ?thesis
      proof (cases r)
        case (Inl e)
        then have "s' = s1" using Cons.prems(2) vals vs uv by simp
        then show ?thesis using ok1 by simp
      next
        case (Inr lp)
        obtain len1 pk1 where lp: "lp = (len1, pk1)" by (cases lp)
        have "unpack_groups int_str gs (len1, pk1, s1) = (res, s')"
          using Cons.prems(2) vals vs uv Inr lp by simp
        from Cons.IH [OF ok1 this] show ?thesis .
      qed
    qed
  qed
qed

lemma store_ok_unpack_response:
  assumes "store_ok (priv_logs self)" and "unpack_response int_str self p = (res, self')"
  shows "store_ok (priv_logs self')"
proof (cases "\<exists>d r gs. py_getitem p ''data'' = Inr d \<and> py_getitem d ''result'' = Inr r \<and>
    py_iter r = Inr gs")
  case True
  then obtain d r gs where a: "py_getitem p ''data'' = Inr d"
    "py_getitem d ''result'' = Inr r" "py_iter r = Inr gs" by blast
  obtain res1 s1 where ug: "unpack_groups int_str gs (0, 0, priv_logs self) = (res1, s1)"
    by (cases "unpack_groups int_str gs (0, 0, priv_logs self)")
  have "self' = self\<lparr>priv_logs := s1\<rparr>"
    using assms(2) a ug by (simp add: unpack_response_def)
  moreover have "store_ok s1" using assms(1) ug by (rule store_ok_unpack_groups)
  ultimately show ?thesis by simp
next
  case False
  then have "self' = self"
    using assms(2) by (auto simp: unpack_response_def split: sum.splits)
  then show ?thesis using assms(1) by simp
qed

lemma from_project_init:
  "from_project get_all_secrets project kw = Inr self \<Longrightarrow>
     \<exists>u fmt lim step dps. init get_all_secrets (Some u) fmt lim step dps = Inr self"
  by (auto simp: from_project_def Let_def split: if_splits sum.splits) blast

lemma init_state:
  "init get_all_secrets url_arg fmt lim step dps = Inr self \<Longrightarrow>
     priv_result self = None \<and> store_ok (priv_logs self)"
  by (auto simp: init_def split: if_splits sum.splits option.splits)

lemma to_file_logs:
  "to_file strftime set_iter encode repr self file enc do_seek = (res, file', self') \<Longrightarrow>
     \<exists>r. logs strftime set_iter self = (r, self')"
  by (auto simp: to_file_def Let_def split: sum.splits prod.splits)

lemma reachable_invariant:
  "reachable get_all_secrets serve int_str strftime set_iter encode repr self \<Longrightarrow>
     cache_ok strftime set_iter self \<and> store_ok (priv_logs self)"
proof (induction rule: reachable.induct)
  case (r_init url_arg fmt lim step dps self)
  then show ?case using init_state [of get_all_secrets url_arg fmt lim step dps self]
    by (simp add: cache_ok_def)
next
  case (r_from_project project kw self)
  from from_project_init [OF this] obtain u fmt lim step dps where
    "init get_all_secrets (Some u) fmt lim step dps = Inr self" by blast
  from init_state [OF this] show ?case by (simp add: cache_ok_def)
next
  case (r_fetch_logs self n w q st fetch_all dir res self' w')
  have "store_ok (priv_logs self') \<and> priv_result self' = None"
  proof (rule fetch_logs_preserves [where P = "\<lambda>s. store_ok (priv_logs s)" and int_str = int_str
        and self = self and serve = serve and n = n and w = w and q = q and st = st
        and fetch_all = fetch_all and dir = dir and res = res and w' = w'])
    show "store_ok (priv_logs (s\<lparr>priv_result := None\<rparr>))" if "store_ok (priv_logs s)" for s
      using that by simp
    show "store_ok (priv_logs s')"
      if "store_ok (priv_logs s)" "unpack_response int_str s p = (r, s')" for s p r s'
      using that by (rule store_ok_unpack_response)
    show "store_ok (priv_logs self)" using r_fetch_logs.IH by simp
    show "fetch_logs serve int_str n self w q st fetch_all dir = Some (res, self', w')"
      by (rule r_fetch_logs.hyps(2))
  qed
  then show ?case by (simp add: cache_ok_def)
next
  case (r_logs self res self')
  from logs_view [OF _ r_logs.hyps(2)] r_logs.IH show ?case by simp
next
  case (r_to_file self f enc do_seek res f' self')
  from to_file_logs [OF r_to_file.hyps(2)] obtain r where "logs strftime set_iter self = (r, self')"
    by blast
  from logs_view [OF _ this] r_to_file.IH show ?case by simp
qed

text \<open>
  Claim C5. In every reachable state of the fetcher, under either policy, a view that
  \<^verbatim>\<open>logs\<close> returns is the image of a list of \<open>(timestamp, message)\<close> entries of the
  collection, sorted by ascending timestamp, each timestamp formatted with the date
  format and each message unchanged. The list is an initial part of the sorted
  collection, and the whole of it when no view was cached.
\<close>

theorem logs_sorted:
  assumes "reachable get_all_secrets serve int_str strftime set_iter encode repr self"
    and "logs strftime set_iter self = (Inr view, self')"
  shows "\<exists>raw. sorted (map fst raw) \<and> formats strftime (date_format self) raw view \<and>
           prefix raw (raw_view set_iter (priv_logs self)) \<and>
           (priv_result self = None \<longrightarrow> raw = raw_view set_iter (priv_logs self))"
proof -
  have c: "cache_ok strftime set_iter self"
    using reachable_invariant [OF assms(1)] by simp
  from logs_view [OF c assms(2)] obtain n where
    n: "formats strftime (date_format self) (take n (raw_view set_iter (priv_logs self))) view"
    and whole: "priv_result self = None \<longrightarrow>
      formats strftime (date_format self) (raw_view set_iter (priv_logs self)) view"
    by blast
  let ?all = "raw_view set_iter (priv_logs self)"
  show ?thesis
  proof (cases "priv_result self = None")
    case True
    then have "formats strftime (date_format self) ?all view" using whole by simp
    moreover have "sorted (map fst ?all)" by (rule sorted_raw_view)
    ultimately show ?thesis by auto
  next
    case False
    have "sorted (map fst (take n ?all))" by (rule sorted_take_raw_view)
    moreover have "prefix (take n ?all) ?all" by (rule take_is_prefix)
    moreover have "priv_result self = None \<longrightarrow> take n ?all = ?all"
      using False by blast
    ultimately show ?thesis using n
      by (intro exI [of _ "take n ?all"] conjI)
  qed
qed

theorem logs_sorted_witness:
  "reachable (\<lambda>p :: unit option. Inl VaultError) serve_script dec_int tally rev
     (\<lambda>enc s. Inr s) (\<lambda>j. ''?'')
     \<lparr>url = ''http://loki'', date_format = ''t='', query_limit = 5000, next_chunk_step_ns = 1,
      data_parse_structure = dict_t,
      priv_logs = LogDict [(3, [JStr ''b'', JStr ''c'']), (2, [JStr ''a''])],
      priv_result = None\<rparr> \<and>
   logs tally rev
     \<lparr>url = ''http://loki'', date_format = ''t='', query_limit = 5000, next_chunk_step_ns = 1,
      data_parse_structure = dict_t,
      priv_logs = LogDict [(3, [JStr ''b'', JStr ''c'']), (2, [JStr ''a''])],
      priv_result = None\<rparr> =
     (Inr [(''t=||'', JStr ''a''), (''t=|||'', JStr ''c''), (''t=|||'', JStr ''b'')],
      \<lparr>url = ''http://loki'', date_format = ''t='', query_limit = 5000, next_chunk_step_ns = 1,
       data_parse_structure = dict_t,
       priv_logs = LogDict [(3, [JStr ''b'', JStr ''c'']), (2, [JStr ''a''])],
       priv_result = Some [(''t=||'', JStr ''a''), (''t=|||'', JStr ''c''), (''t=|||'', JStr ''b'')]\<rparr>) \<and>
   raw_view rev (LogDict [(3, [JStr ''b'', JStr ''c'']), (2, [JStr ''a''])]) =
     [(2, JStr ''a''), (3, JStr ''c''), (3, JStr ''b'')]"
proof -
  let ?gas = "\<lambda>p :: unit option. Inl VaultError :: error + (string \<rightharpoonup> string)"
  let ?F0 = "\<lparr>url = ''http://loki'', date_format = ''t='', query_limit = 5000,
      next_chunk_step_ns = 1, data_parse_structure = dict_t, priv_logs = LogDict [],
      priv_result = None\<rparr>"
  let ?F1 = "\<lparr>url = ''http://loki'', date_format = ''t='', query_limit = 5000,
      next_chunk_step_ns = 1, data_parse_structure = dict_t,
      priv_logs = LogDict [(3, [JStr ''b'', JStr ''c'']), (2, [JStr ''a''])],
      priv_result = None\<rparr>"
  let ?view = "[(''t=||'', JStr ''a''), (''t=|||'', JStr ''c''), (''t=|||'', JStr ''b'')]"
  let ?w = "\<lparr>sent = [],
      service = [Inr (response [[(''3'', ''b''), (''2'', ''a''), (''3'', ''c''), (''3'', ''b'')]])]\<rparr>"
  have i: "init ?gas (Some ''http://loki'') ''t='' 5000 1 dict_t = Inr ?F0"
    by (simp add: init_def)
  have f: "fetch_logs serve_script dec_int (Suc 0) ?F0 ?w ''q'' 0 True forward =
      Some (Inr (), ?F1, \<lparr>sent = [request_of ?F0 ''q'' 0 forward], service = []\<rparr>)"
    by (simp add: run_defs)
  have r: "reachable ?gas serve_script dec_int tally rev (\<lambda>enc s. Inr s) (\<lambda>j. ''?'') ?F1"
    by (rule r_fetch_logs [OF r_init [OF i] f])
  have l: "logs tally rev ?F1 = (Inr ?view, ?F1\<lparr>priv_result := Some ?view\<rparr>)"
    by (simp add: logs_def tally_def eval_nat_numeral)
  have v: "raw_view rev (LogDict [(3, [JStr ''b'', JStr ''c'']), (2, [JStr ''a''])]) =
      [(2, JStr ''a''), (3, JStr ''c''), (3, JStr ''b'')]"
    by simp
  from logs_sorted [OF r l] show ?thesis
    using r l v by simp
qed

section \<open>What the view holds\<close>






section \<open>Writing to the sink\<close>

lemma pos_file_write [simp]: "pos (file_write f b) = pos f + length b"
  by (simp add: file_write_def Let_def)

lemma file_write_Nil [simp]: "file_write f [] = f"
  by (simp add: file_write_def)

lemma buf_file_write:
  "b \<noteq> [] \<Longrightarrow>
     \<exists>A C. buf (file_write f b) = A @ b @ C \<and> length A = pos f \<and>
       (pos f \<le> length (buf f) \<longrightarrow> A = take (pos f) (buf f))"
proof -
  assume ne: "b \<noteq> []"
  let ?padded = "buf f @ replicate (pos f - length (buf f)) (CHR 0x00)"
  have b: "buf (file_write f b) = take (pos f) ?padded @ b @ drop (pos f + length b) ?padded"
    using ne by (simp add: file_write_def Let_def)
  have "length (take (pos f) ?padded) = pos f" by simp
  moreover have "pos f \<le> length (buf f) \<longrightarrow> take (pos f) ?padded = take (pos f) (buf f)"
    by simp
  ultimately show ?thesis using b by blast
qed

lemma file_write_at_end:
  "pos f = length (buf f) \<Longrightarrow> file_write f b = \<lparr>buf = buf f @ b, pos = length (buf f) + length b\<rparr>"
  by (cases "b = []") (simp_all add: file_write_def Let_def)

lemma foldl_file_write_at_end:
  "pos f = length (buf f) \<Longrightarrow>
     foldl file_write f cs =
       \<lparr>buf = buf f @ concat cs, pos = length (buf f) + length (concat cs)\<rparr>"
proof (induction cs arbitrary: f)
  case Nil
  then show ?case by simp
next
  case (Cons c cs)
  let ?f1 = "\<lparr>buf = buf f @ c, pos = length (buf f) + length c\<rparr>"
  have w: "file_write f c = ?f1" using Cons.prems by (rule file_write_at_end)
  have "pos ?f1 = length (buf ?f1)" by simp
  from Cons.IH [OF this] show ?case using w by (simp add: add.assoc)
qed

lemma pos_foldl_file_write [simp]:
  "pos (foldl file_write f cs) = pos f + length (concat cs)"
  by (induction cs arbitrary: f) simp_all

lemma file_write_keeps:
  assumes "pos g \<le> length (buf g)" and "k \<le> pos g"
  shows "take k (buf (file_write g c)) = take k (buf g) \<and>
         pos (file_write g c) \<le> length (buf (file_write g c))"
proof (cases "c = []")
  case True
  then show ?thesis using assms by simp
next
  case False
  from buf_file_write [OF False, of g] obtain A C where
    b: "buf (file_write g c) = A @ c @ C" "length A = pos g" "A = take (pos g) (buf g)"
    using assms(1) by blast
  have "take k (A @ c @ C) = take k A" using b(2) assms(2) by simp
  also have "\<dots> = take k (buf g)" using b(3) assms(2) by (simp add: min_def)
  finally have "take k (buf (file_write g c)) = take k (buf g)" using b(1) by simp
  moreover have "pos (file_write g c) \<le> length (buf (file_write g c))"
    using b(1,2) by simp
  ultimately show ?thesis by blast
qed

lemma foldl_file_write_keeps:
  "pos g \<le> length (buf g) \<Longrightarrow> k \<le> pos g \<Longrightarrow>
     take k (buf (foldl file_write g cs)) = take k (buf g)"
proof (induction cs arbitrary: g)
  case Nil
  then show ?case by simp
next
  case (Cons c cs)
  from file_write_keeps [OF Cons.prems, of c] have
    a: "take k (buf (file_write g c)) = take k (buf g)"
    and b: "pos (file_write g c) \<le> length (buf (file_write g c))"
    by simp_all
  have "k \<le> pos (file_write g c)" using Cons.prems(2) by simp
  from Cons.IH [OF b this] a show ?case by simp
qed

lemma foldl_file_write_region:
  "take (length (concat cs)) (drop (pos f) (buf (foldl file_write f cs))) = concat cs"
proof (induction cs arbitrary: f)
  case Nil
  then show ?case by simp
next
  case (Cons c cs)
  show ?case
  proof (cases "c = []")
    case True
    then show ?thesis using Cons.IH [of f] by simp
  next
    case False
    let ?f1 = "file_write f c"
    let ?B = "buf (foldl file_write ?f1 cs)"
    from buf_file_write [OF False, of f] obtain A C where
      b: "buf ?f1 = A @ c @ C" "length A = pos f"
      by blast
    have le: "pos ?f1 \<le> length (buf ?f1)" using b by simp
    have "take (pos ?f1) ?B = take (pos ?f1) (buf ?f1)"
      using le by (intro foldl_file_write_keeps) simp_all
    also have "\<dots> = A @ c" using b by simp
    finally have pre: "take (pos f + length c) ?B = A @ c" by simp
    have "take (length c) (drop (pos f) ?B) = drop (pos f) (take (pos f + length c) ?B)"
      by (simp add: drop_take)
    also have "\<dots> = c" using pre b(2) by simp
    finally have one: "take (length c) (drop (pos f) ?B) = c" .
    have rest: "take (length (concat cs)) (drop (pos f + length c) ?B) = concat cs"
      using Cons.IH [of ?f1] by simp
    have "take (length c + length (concat cs)) (drop (pos f) ?B) =
        take (length c) (drop (pos f) ?B) @
        take (length (concat cs)) (drop (length c) (drop (pos f) ?B))"
      by (rule take_add)
    also have "\<dots> = c @ concat cs"
      using one rest by (simp add: add.commute)
    finally show ?thesis by simp
  qed
qed

lemma write_logs_chunks:
  "list_map (encode enc) (map (line repr) view) = Inr chunks \<Longrightarrow>
     write_logs encode repr enc f view = (Inr (), foldl file_write f chunks)"
proof (induction view arbitrary: f chunks)
  case Nil
  then show ?case by simp
next
  case (Cons l view)
  from Cons.prems obtain c cs where c: "encode enc (line repr l) = Inr c"
    and cs: "list_map (encode enc) (map (line repr) view) = Inr cs" and ch: "chunks = c # cs"
    by (auto split: sum.splits)
  from Cons.IH [OF cs, of "file_write f c"] show ?case using c ch by simp
qed

text \<open>
  Claim C8 as stated fails for a sink of the caller that already holds bytes: with
  \<^verbatim>\<open>abc\<close> in the sink and the cursor after it, the line is written after
  \<^verbatim>\<open>abc\<close>, the seek goes to the beginning, and reading the sink back yields
  \<^verbatim>\<open>abc\<close> followed by the line, not the lines of \<^verbatim>\<open>logs\<close>.
\<close>

theorem to_file_given_sink_counterexample:
  "to_file tally rev (\<lambda>enc s. if enc = ''utf-8'' then Inr s else Inl LookupError) (\<lambda>j. ''?'')
     \<lparr>url = ''http://loki'', date_format = ''t='', query_limit = 5000, next_chunk_step_ns = 1,
      data_parse_structure = list_t, priv_logs = LogList [(2, JStr ''a'')],
      priv_result = None\<rparr> (Some \<lparr>buf = ''abc'', pos = 3\<rparr>) ''utf-8'' True =
     (Inr (),
      \<lparr>buf = ''abc'' @ ''t=||'' @ [CHR 0x09] @ ''a'' @ [CHR 0x0A], pos = 0\<rparr>,
      \<lparr>url = ''http://loki'', date_format = ''t='', query_limit = 5000, next_chunk_step_ns = 1,
       data_parse_structure = list_t, priv_logs = LogList [(2, JStr ''a'')],
       priv_result = Some [(''t=||'', JStr ''a'')]\<rparr>) \<and>
   fst (file_read \<lparr>buf = ''abc'' @ ''t=||'' @ [CHR 0x09] @ ''a'' @ [CHR 0x0A], pos = 0\<rparr>) =
     ''abc'' @ ''t=||'' @ [CHR 0x09] @ ''a'' @ [CHR 0x0A] \<and>
   ''abc'' @ ''t=||'' @ [CHR 0x09] @ ''a'' @ [CHR 0x0A] \<noteq> ''t=||'' @ [CHR 0x09] @ ''a'' @ [CHR 0x0A]"
  by (simp add: to_file_def logs_def tally_def format_entry_def line_def file_write_def
      file_seek_def file_read_def Let_def eval_nat_numeral)

text \<open>
  Claim C8, as amended. Let \<^verbatim>\<open>logs\<close> return a view and let every line
  \<^verbatim>\<open>"{formatted_timestamp}\t{message}\n"\<close> of it encode. Then \<^verbatim>\<open>to_file\<close> returns
  the sink (the given one, or a new one) after writing into it the encoded lines, one
  write for each entry of the view, in the order of the view. The bytes from the
  cursor the sink had are the encoded lines in that order; the cursor is at the
  beginning when \<^verbatim>\<open>do_seek\<close> is set and after the last line otherwise. When the sink
  had its cursor at its end its content is what it held followed by the lines, and
  that is what reading it back after the seek yields; reading a new sink back after the
  seek yields exactly the lines, in order.
\<close>

theorem to_file_writes_lines:
  assumes "logs strftime set_iter self = (Inr view, self1)"
    and "list_map (encode enc) (map (line repr) view) = Inr chunks"
    and "file1 = (case file of None \<Rightarrow> new_bytesio | Some f \<Rightarrow> f)"
    and "sink = (if do_seek then file_seek (foldl file_write file1 chunks) 0
                 else foldl file_write file1 chunks)"
  shows "to_file strftime set_iter encode repr self file enc do_seek = (Inr (), sink, self1) \<and>
         length chunks = length view \<and>
         pos sink = (if do_seek then 0 else pos file1 + length (concat chunks)) \<and>
         take (length (concat chunks)) (drop (pos file1) (buf sink)) = concat chunks \<and>
         (pos file1 = length (buf file1) \<longrightarrow> buf sink = buf file1 @ concat chunks) \<and>
         (pos file1 = length (buf file1) \<and> do_seek \<longrightarrow>
            fst (file_read sink) = buf file1 @ concat chunks) \<and>
         (file = None \<and> do_seek \<longrightarrow> fst (file_read sink) = concat chunks)"
proof -
  let ?f2 = "foldl file_write file1 chunks"
  have w: "write_logs encode repr enc file1 view = (Inr (), ?f2)"
    using assms(2) by (rule write_logs_chunks)
  have run: "to_file strftime set_iter encode repr self file enc do_seek = (Inr (), sink, self1)"
    using assms(1,3,4) w by (simp add: to_file_def Let_def)
  have len: "length chunks = length view"
    using list_map_length [OF assms(2)] by simp
  have b: "buf sink = buf ?f2" using assms(4) by (simp add: file_seek_def)
  have p: "pos sink = (if do_seek then 0 else pos file1 + length (concat chunks))"
    using assms(4) by (simp add: file_seek_def)
  have region: "take (length (concat chunks)) (drop (pos file1) (buf sink)) = concat chunks"
    using foldl_file_write_region [of chunks file1] b by simp
  have at_end: "buf sink = buf file1 @ concat chunks" if "pos file1 = length (buf file1)"
    using foldl_file_write_at_end [OF that, of chunks] b by simp
  have rb0: "fst (file_read sink) = buf file1 @ concat chunks"
    if h: "pos file1 = length (buf file1) \<and> do_seek"
  proof -
    have "buf sink = buf file1 @ concat chunks" using at_end h by simp
    moreover have "pos sink = 0" using p h by simp
    ultimately show ?thesis by (simp add: file_read_def)
  qed
  have rb: "fst (file_read sink) = concat chunks" if h: "file = None \<and> do_seek"
  proof -
    have "file1 = new_bytesio" using h assms(3) by simp
    then have "pos file1 = length (buf file1)" "buf file1 = []"
      by (simp_all add: new_bytesio_def)
    then have "buf sink = concat chunks" using at_end by simp
    moreover have "pos sink = 0" using p h by simp
    ultimately show ?thesis by (simp add: file_read_def)
  qed
  from run len p region at_end rb0 rb show ?thesis by blast
qed

theorem to_file_writes_lines_witness:
  "logs tally rev
     \<lparr>url = ''http://loki'', date_format = ''t='', query_limit = 5000, next_chunk_step_ns = 1,
      data_parse_structure = list_t, priv_logs = LogList [(3, JStr ''b''), (2, JStr ''a'')],
      priv_result = None\<rparr> =
     (Inr [(''t=||'', JStr ''a''), (''t=|||'', JStr ''b'')],
      \<lparr>url = ''http://loki'', date_format = ''t='', query_limit = 5000, next_chunk_step_ns = 1,
       data_parse_structure = list_t, priv_logs = LogList [(3, JStr ''b''), (2, JStr ''a'')],
       priv_result = Some [(''t=||'', JStr ''a''), (''t=|||'', JStr ''b'')]\<rparr>) \<and>
   list_map ((\<lambda>enc s. if enc = ''utf-8'' then Inr s else Inl LookupError) ''utf-8'')
       (map (line (\<lambda>j. ''?'')) [(''t=||'', JStr ''a''), (''t=|||'', JStr ''b'')]) =
     Inr [''t=||'' @ [CHR 0x09] @ ''a'' @ [CHR 0x0A], ''t=|||'' @ [CHR 0x09] @ ''b'' @ [CHR 0x0A]] \<and>
   to_file tally rev (\<lambda>enc s. if enc = ''utf-8'' then Inr s else Inl LookupError) (\<lambda>j. ''?'')
     \<lparr>url = ''http://loki'', date_format = ''t='', query_limit = 5000, next_chunk_step_ns = 1,
      data_parse_structure = list_t, priv_logs = LogList [(3, JStr ''b''), (2, JStr ''a'')],
      priv_result = None\<rparr> None ''utf-8'' True =
     (Inr (),
      \<lparr>buf = ''t=||'' @ [CHR 0x09] @ ''a'' @ [CHR 0x0A] @ ''t=|||'' @ [CHR 0x09] @ ''b'' @ [CHR 0x0A],
       pos = 0\<rparr>,
      \<lparr>url = ''http://loki'', date_format = ''t='', query_limit = 5000, next_chunk_step_ns = 1,
       data_parse_structure = list_t, priv_logs = LogList [(3, JStr ''b''), (2, JStr ''a'')],
       priv_result = Some [(''t=||'', JStr ''a''), (''t=|||'', JStr ''b'')]\<rparr>) \<and>
   fst (file_read
     \<lparr>buf = ''t=||'' @ [CHR 0x09] @ ''a'' @ [CHR 0x0A] @ ''t=|||'' @ [CHR 0x09] @ ''b'' @ [CHR 0x0A],
      pos = 0\<rparr>) =
     ''t=||'' @ [CHR 0x09] @ ''a'' @ [CHR 0x0A] @ ''t=|||'' @ [CHR 0x09] @ ''b'' @ [CHR 0x0A]"
proof -
  let ?F = "\<lparr>url = ''http://loki'', date_format = ''t='', query_limit = 5000,
      next_chunk_step_ns = 1, data_parse_structure = list_t,
      priv_logs = LogList [(3, JStr ''b''), (2, JStr ''a'')], priv_result = None\<rparr>"
  let ?view = "[(''t=||'', JStr ''a''), (''t=|||'', JStr ''b'')]"
  let ?encode = "\<lambda>enc s. if enc = ''utf-8'' then Inr s else Inl LookupError :: error + bytes"
  let ?repr = "\<lambda>j :: json. ''?''"
  let ?chunks = "[''t=||'' @ [CHR 0x09] @ ''a'' @ [CHR 0x0A], ''t=|||'' @ [CHR 0x09] @ ''b'' @ [CHR 0x0A]]"
  let ?sink = "\<lparr>buf = ''t=||'' @ [CHR 0x09] @ ''a'' @ [CHR 0x0A] @ ''t=|||'' @ [CHR 0x09] @ ''b'' @ [CHR 0x0A],
       pos = 0\<rparr>"
  have l: "logs tally rev ?F = (Inr ?view, ?F\<lparr>priv_result := Some ?view\<rparr>)"
    by (simp add: logs_def tally_def format_entry_def eval_nat_numeral)
  have c: "list_map (?encode ''utf-8'') (map (line ?repr) ?view) = Inr ?chunks"
    by (simp add: line_def)
  have f: "new_bytesio = (case None :: bytesio option of None \<Rightarrow> new_bytesio | Some f \<Rightarrow> f)"
    by simp
  have s: "?sink = (if True then file_seek (foldl file_write new_bytesio ?chunks) 0
      else foldl file_write new_bytesio ?chunks)"
    by (simp add: new_bytesio_def file_write_def file_seek_def Let_def)
  from to_file_writes_lines [where encode = ?encode and repr = ?repr and ?file = None
      and do_seek = True, OF l c f s]
  show ?thesis using l c by simp
qed

end
